theory Spec2Isabelle
  imports Complex_Main "HOL-Library.Word" "HOL-Library.Log_Nat"
begin

unbundle bit_operations_syntax

section \<open>The input file\<close>

text \<open>
  The converter reads its input through the C stream functions \<^verbatim>\<open>fread\<close>,
  \<^verbatim>\<open>fseek\<close> and \<^verbatim>\<open>feof\<close>.  A stream is the bytes of the file, the
  current position and the end-of-file indicator.  The indicator is raised by a read that
  runs into the end of the file (one that delivers fewer bytes than asked for) and lowered
  by every successful seek; a read that delivers exactly the last bytes of the file leaves
  it lowered.  A seek may move the position past the end of the file; it only fails when
  the new position would be negative.

  Integers are those of an LP64 little-endian platform: \<^verbatim>\<open>uint32_t\<close> is
  \<^typ>\<open>32 word\<close>, \<^verbatim>\<open>long\<close> is 64 bits wide and holds every value that occurs
  here (it is modelled by \<^typ>\<open>int\<close>), \<^verbatim>\<open>size_t\<close> is 64 bits wide.
\<close>

type_synonym byte = "8 word"
type_synonym u32 = "32 word"

record FILE =
  f_bytes :: "byte list"
  f_pos :: nat
  f_eof :: bool

definition fopen :: "byte list \<Rightarrow> FILE" where
  "fopen bs = \<lparr>f_bytes = bs, f_pos = 0, f_eof = False\<rparr>"

definition fread :: "FILE \<Rightarrow> nat \<Rightarrow> byte list \<times> FILE" where
  "fread fp n =
     (let got = take n (drop (f_pos fp) (f_bytes fp))
      in (got, fp\<lparr>f_pos := f_pos fp + length got,
                   f_eof := (f_eof fp \<or> length got < n)\<rparr>))"

definition feof :: "FILE \<Rightarrow> bool" where
  "feof fp = f_eof fp"

text \<open>\<^verbatim>\<open>fseek(fp, off, SEEK_CUR)\<close>; \<open>None\<close> is the return value \<^verbatim>\<open>-1\<close>.\<close>

definition fseek_cur :: "FILE \<Rightarrow> int \<Rightarrow> FILE option" where
  "fseek_cur fp off =
     (if int (f_pos fp) + off < 0 then None
      else Some (fp\<lparr>f_pos := nat (int (f_pos fp) + off), f_eof := False\<rparr>))"

text \<open>\<^verbatim>\<open>fseek(fp, 0, SEEK_SET)\<close>.\<close>

definition fseek_set0 :: "FILE \<Rightarrow> FILE option" where
  "fseek_set0 fp = Some (fp\<lparr>f_pos := 0, f_eof := False\<rparr>)"

section \<open>Packet tags and headers\<close>

definition HXVS :: u32 where "HXVS = 1398167624"
definition HXVT :: u32 where "HXVT = 1414944840"
definition HXVF :: u32 where "HXVF = 1180063816"
definition HXAF :: u32 where "HXAF = 1178687560"
definition HXFI :: u32 where "HXFI = 1229346888"

text \<open>Sizes of the header structures that follow the 4-byte tag.\<close>

definition sizeof_HXVSFrame_t :: nat where "sizeof_HXVSFrame_t = 12"
definition sizeof_HXVFFrame_t :: nat where "sizeof_HXVFFrame_t = 12"
definition sizeof_HXAFFrame_t :: nat where "sizeof_HXAFFrame_t = 16"

text \<open>A \<^verbatim>\<open>uint32_t\<close> in memory, least significant byte first.\<close>

fun le32 :: "byte list \<Rightarrow> u32" where
  "le32 [b0, b1, b2, b3] =
     ucast b0 OR push_bit 8 (ucast b1) OR push_bit 16 (ucast b2) OR push_bit 24 (ucast b3)"
| "le32 _ = 0"

text \<open>The field of a header structure at byte offset \<open>off\<close>.\<close>

definition field32 :: "byte list \<Rightarrow> nat \<Rightarrow> u32" where
  "field32 d off = le32 (take 4 (drop off d))"

datatype error =
    TruncatedStream   \<comment> \<open>\<^verbatim>\<open>Premature end of file, aborting.\<close>\<close>
  | SeekFailure       \<comment> \<open>\<^verbatim>\<open>Seek error, aborting\<close> and \<^verbatim>\<open>Cannot seek back to beginning of file\<close>\<close>
  | NoVideoDetected   \<comment> \<open>\<^verbatim>\<open>No video detected, aborting.\<close>\<close>
  | InvalidRead       \<comment> \<open>a read of memory that is not allocated or not initialised\<close>

section \<open>First pass: frame rate, sample rate and video size\<close>

text \<open>
  The local variables of \<^verbatim>\<open>main\<close> that the first loop updates.  \<^verbatim>\<open>video_w\<close> and
  \<^verbatim>\<open>video_h\<close> are not initialised where they are declared: they are \<open>None\<close> until a
  size packet assigns them.  The two averages are \<^verbatim>\<open>double\<close>s; they are modelled by
  exact real numbers: after the first pass the model only uses whether they are positive.
\<close>

record infer_state =
  video_w :: "int option"
  video_h :: "int option"
  video_avg_frame_rate :: real
  audio_avg_sample_rate :: real
  video_ts_initial :: int
  audio_ts_initial :: int
  video_ts_prev :: int
  audio_ts_prev :: int
  audio_packets_count :: int
  video_packets_count :: int

definition infer_init :: infer_state where
  "infer_init =
     \<lparr>video_w = None, video_h = None,
      video_avg_frame_rate = 0, audio_avg_sample_rate = 0,
      video_ts_initial = -1, audio_ts_initial = -1,
      video_ts_prev = -1, audio_ts_prev = -1,
      audio_packets_count = 0, video_packets_count = 0\<rparr>"

text \<open>The update of the video variables by a frame header with timestamp \<open>ts\<close>.\<close>

definition video_rate_update :: "infer_state \<Rightarrow> u32 \<Rightarrow> infer_state" where
  "video_rate_update st ts =
     (if video_ts_initial st = -1 then
        st\<lparr>video_ts_initial := uint ts, video_ts_prev := uint ts\<rparr>
      else
        let timestamp = uint ts - video_ts_initial st;
            st1 =
              (if timestamp > video_ts_prev st then
                 let elapsed = timestamp - video_ts_prev st;
                     rate =
                       (if video_packets_count st \<noteq> 0 then
                          (video_avg_frame_rate st * real_of_int (video_packets_count st)
                             + 1000 / real_of_int elapsed)
                            / (real_of_int (video_packets_count st) + 1)
                        else 1000 / real_of_int elapsed)
                 in st\<lparr>video_avg_frame_rate := rate,
                       video_packets_count := video_packets_count st + 1\<rparr>
               else st)
        in st1\<lparr>video_ts_prev := timestamp\<rparr>)"

text \<open>
  The update of the audio variables by a frame header with length \<open>len\<close> and timestamp
  \<open>ts\<close>.  The subtraction \<^verbatim>\<open>length - 4\<close> is done on \<^verbatim>\<open>uint32_t\<close>.
\<close>

definition audio_rate_update :: "infer_state \<Rightarrow> u32 \<Rightarrow> u32 \<Rightarrow> infer_state" where
  "audio_rate_update st len ts =
     (if audio_ts_initial st = -1 then
        st\<lparr>audio_ts_initial := uint ts, audio_ts_prev := uint ts\<rparr>
      else
        let timestamp = uint ts - audio_ts_initial st;
            st1 =
              (if timestamp > audio_ts_prev st then
                 let elapsed = timestamp - audio_ts_prev st;
                     rate =
                       (if audio_packets_count st \<noteq> 0 then
                          (audio_avg_sample_rate st * real_of_int (audio_packets_count st)
                             + real (unat (len - 4)) / real_of_int elapsed)
                            / (real_of_int (audio_packets_count st) + 1)
                        else real (unat (len - 4)) / real_of_int elapsed)
                 in st\<lparr>audio_avg_sample_rate := rate,
                       audio_packets_count := audio_packets_count st + 1\<rparr>
               else st)
        in st1\<lparr>audio_ts_prev := timestamp\<rparr>)"

text \<open>
  One iteration of the first \<^verbatim>\<open>do ... while\<close> loop: the tag is read, then the
  \<^verbatim>\<open>switch\<close> on it.  The result is the stream, the variables and
  \<^verbatim>\<open>hxfi_detected\<close>; \<open>Inl\<close> is an \<^verbatim>\<open>exit(1)\<close>.
\<close>

definition infer_step :: "FILE \<Rightarrow> infer_state \<Rightarrow> error + (FILE \<times> infer_state \<times> bool)" where
  "infer_step fp st =
     (let (hdr, fp1) = fread fp 4 in
      if length hdr \<noteq> 4 then Inl TruncatedStream
      else
        let header = le32 hdr in
        if header = HXVS then
          (let (d, fp2) = fread fp1 sizeof_HXVSFrame_t in
           if length d \<noteq> sizeof_HXVSFrame_t then Inl TruncatedStream
           else Inr (fp2, st\<lparr>video_w := Some (sint (field32 d 0)),
                             video_h := Some (sint (field32 d 4))\<rparr>, False))
        else if header = HXVF then
          (let (d, fp2) = fread fp1 sizeof_HXVFFrame_t in
           if length d \<noteq> sizeof_HXVFFrame_t then Inl TruncatedStream
           else
             let st1 = video_rate_update st (field32 d 4) in
             case fseek_cur fp2 (uint (field32 d 0)) of
               None \<Rightarrow> Inl TruncatedStream
             | Some fp3 \<Rightarrow> Inr (fp3, st1, False))
        else if header = HXAF then
          (let (d, fp2) = fread fp1 sizeof_HXAFFrame_t in
           if length d \<noteq> sizeof_HXAFFrame_t then Inl TruncatedStream
           else
             let st1 = audio_rate_update st (field32 d 0) (field32 d 4) in
             case fseek_cur fp2 (uint (field32 d 0 - 4)) of
               None \<Rightarrow> Inl TruncatedStream
             | Some fp3 \<Rightarrow> Inr (fp3, st1, False))
        else if header = HXFI then Inr (fp1, st, True)
        else Inr (fp1, st, False))"

lemma fread_facts:
  assumes "fread fp n = (got, fp')"
  shows "f_bytes fp' = f_bytes fp" and "f_pos fp' = f_pos fp + length got"
    and "length got \<le> n"
    and "got = take n (drop (f_pos fp) (f_bytes fp))"
    and "f_eof fp' = (f_eof fp \<or> length got < n)"
  using assms by (auto simp: fread_def Let_def)

lemma fread_full:
  assumes "fread fp n = (got, fp')" and "length got = n" and "0 < n"
  shows "f_pos fp + n \<le> length (f_bytes fp)"
  using assms by (auto simp: fread_def Let_def min_def split: if_splits)

lemma fseek_cur_facts:
  assumes "fseek_cur fp off = Some fp'" and "0 \<le> off"
  shows "f_bytes fp' = f_bytes fp" and "f_pos fp' = f_pos fp + nat off"
    and "\<not> f_eof fp'"
  using assms by (auto simp: fseek_cur_def nat_add_distrib split: if_splits)

lemma fseek_cur_uint:
  assumes "fseek_cur fp (uint (w :: u32)) = Some fp'"
  shows "f_bytes fp' = f_bytes fp \<and> f_pos fp \<le> f_pos fp'"
  using fseek_cur_facts(1,2) [OF assms] by simp

lemma infer_step_progress:
  assumes "infer_step fp st = Inr (fp', st', h)"
  shows "f_bytes fp' = f_bytes fp \<and> f_pos fp + 4 \<le> f_pos fp'
         \<and> f_pos fp + 4 \<le> length (f_bytes fp)"
proof -
  obtain hdr fp1 where r1: "fread fp 4 = (hdr, fp1)"
    by (cases "fread fp 4")
  with assms have len: "length hdr = 4"
    by (auto simp: infer_step_def split: if_splits)
  note f1 = fread_facts [OF r1] fread_full [OF r1 len]
  obtain d12 fp12 where r12: "fread fp1 12 = (d12, fp12)"
    by (cases "fread fp1 12")
  obtain d16 fp16 where r16: "fread fp1 16 = (d16, fp16)"
    by (cases "fread fp1 16")
  note f12 = fread_facts(1,2) [OF r12] and f16 = fread_facts(1,2) [OF r16]
  have "f_bytes fp' = f_bytes fp1 \<and> f_pos fp1 \<le> f_pos fp'"
    using assms r1 len r12 r16 f12 f16
    by (auto simp: infer_step_def Let_def sizeof_HXVSFrame_t_def sizeof_HXVFFrame_t_def
                   sizeof_HXAFFrame_t_def
             split: if_splits option.splits dest!: fseek_cur_uint)
  with f1 len show ?thesis by simp
qed

function infer_loop :: "FILE \<Rightarrow> infer_state \<Rightarrow> error + (FILE \<times> infer_state)" where
  "infer_loop fp st =
     (case infer_step fp st of
        Inl e \<Rightarrow> Inl e
      | Inr (fp', st', hxfi_detected) \<Rightarrow>
          if \<not> feof fp' \<and> \<not> hxfi_detected then infer_loop fp' st'
          else Inr (fp', st'))"
  by pat_completeness auto
termination
proof (relation "measure (\<lambda>(fp, st). length (f_bytes fp) - f_pos fp)")
  show "wf (measure (\<lambda>(fp, st). length (f_bytes fp) - f_pos fp))"
    by simp
next
  fix fp st x2 fp' y st' hxfi_detected
  assume "infer_step fp st = Inr x2" "(fp', y) = x2" "(st', hxfi_detected) = y"
  then have "infer_step fp st = Inr (fp', st', hxfi_detected)"
    by simp
  from infer_step_progress [OF this]
  have "length (f_bytes fp) - f_pos fp' < length (f_bytes fp) - f_pos fp"
    by arith
  then show "((fp', st'), (fp, st)) \<in> measure (\<lambda>(fp, st). length (f_bytes fp) - f_pos fp)"
    using infer_step_progress [OF \<open>infer_step fp st = Inr (fp', st', hxfi_detected)\<close>]
    by simp
qed

declare infer_loop.simps [simp del]

section \<open>The packet buffer\<close>

text \<open>
  The second pass reads payloads into one heap buffer, \<^verbatim>\<open>packet_buffer\<close>.  A buffer
  is a list of cells; a cell that was allocated but never written holds no byte
  (\<open>None\<close>).  The null pointer is \<open>None\<close> at the level of the buffer.  Allocation is
  taken to succeed.
\<close>

type_synonym cell = "byte option"

definition malloc :: "nat \<Rightarrow> cell list" where
  "malloc n = replicate n None"

definition realloc :: "cell list \<Rightarrow> nat \<Rightarrow> cell list" where
  "realloc cells n = take n cells @ replicate (n - length cells) None"

text \<open>The bytes \<open>bs\<close> stored from index \<open>off\<close> on.\<close>

definition store_bytes :: "cell list \<Rightarrow> nat \<Rightarrow> byte list \<Rightarrow> cell list" where
  "store_bytes cells off bs = take off cells @ map Some bs @ drop (off + length bs) cells"

text \<open>
  \<^verbatim>\<open>ReadToBuffer\<close> returns the number of bytes read; the model returns with it the
  stream and the two variables it updates through pointers, \<^verbatim>\<open>*dest\<close> and
  \<^verbatim>\<open>*dest_size\<close>.  The sum \<^verbatim>\<open>length + dest_offset\<close> is computed on 64-bit
  unsigned integers.
\<close>

definition ReadToBuffer ::
  "FILE \<Rightarrow> cell list option \<Rightarrow> nat \<Rightarrow> nat \<Rightarrow> nat \<Rightarrow> nat \<times> FILE \<times> cell list option \<times> nat" where
  "ReadToBuffer fp_src dest dest_offset len dest_size =
     (if len = 0 then (0, fp_src, dest, dest_size)
      else
        let need = (len + dest_offset) mod 2 ^ 64;
            dest1 =
              (case dest of
                 None \<Rightarrow> None
               | Some cells \<Rightarrow>
                   if dest_size < need then
                     (if dest_offset \<noteq> 0 then Some (realloc cells need) else None)
                   else Some cells);
            dest2 = (case dest1 of None \<Rightarrow> malloc need | Some cells \<Rightarrow> cells);
            (got, fp') = fread fp_src len
        in (length got, fp', Some (store_bytes dest2 dest_offset got), need))"

section \<open>Second pass: extraction\<close>

datatype stream = Video | Audio

text \<open>
  A packet handed to \<^verbatim>\<open>av_interleaved_write_frame\<close>: the first \<^verbatim>\<open>size\<close> cells of
  the buffer \<^verbatim>\<open>data\<close> points to, the stream and the timestamp (\<^verbatim>\<open>dts\<close> is the same
  value).
\<close>

record AVPacket =
  data :: "cell list"
  stream_index :: stream
  pts :: int

text \<open>
  The time bases of the two output streams are chosen by the container library when it
  writes the header; they are parameters of the model.  A rational is a pair of numerator
  and denominator, two \<^verbatim>\<open>int\<close>s in the program.
\<close>

record muxer =
  v_time_base :: "int \<times> int"
  a_time_base :: "int \<times> int"

text \<open>
  The timestamps of the packets are computed in \<^verbatim>\<open>double\<close>, IEEE 754 binary64 with
  rounding to nearest, ties to even.  A finite value is kept as an integer significand and
  a binary exponent: \<open>Finite m e\<close> is \<open>m * 2 ^ e\<close>.  The sign of a zero and the sign of an
  infinity are dropped: the integer that the program computes from a \<^verbatim>\<open>double\<close> does not
  depend on them.
\<close>

datatype double = Finite int int | Infinity | NaN

text \<open>
  The nearest integer to \<open>a / b\<close>, for \<open>0 \<le> a\<close> and \<open>0 < b\<close>, the even one of two that are
  equally near.
\<close>

definition round_half_even :: "int \<Rightarrow> int \<Rightarrow> int" where
  "round_half_even a b =
     (let n = a div b; r = a mod b in
      if 2 * r < b then n else if b < 2 * r then n + 1 else if even n then n else n + 1)"

text \<open>
  The exponent of the \<^verbatim>\<open>double\<close> nearest to \<open>a / b\<close>, for positive \<open>a\<close> and \<open>b\<close>: the one
  that puts the significand between \<open>2 ^ 52\<close> and \<open>2 ^ 53\<close>.
\<close>

definition quot_exponent :: "int \<Rightarrow> int \<Rightarrow> int" where
  "quot_exponent a b =
     (let e0 = bitlen a - bitlen b - 53
      in if b * 2 ^ nat (e0 + 53) \<le> a * 2 ^ nat (- (e0 + 53)) then e0 + 1 else e0)"

text \<open>
  The \<^verbatim>\<open>double\<close> nearest to \<open>p / q\<close>, for \<open>q \<noteq> 0\<close>.  Below the normal range the
  exponent stays at \<open>- 1074\<close> (gradual underflow); a result of \<open>2 ^ 1024\<close> or more is an
  infinity.
\<close>

definition rnd_mag :: "int \<Rightarrow> int \<Rightarrow> int \<Rightarrow> int \<Rightarrow> double" where
  "rnd_mag s a b e =
     (let m = round_half_even (a * 2 ^ nat (- e)) (b * 2 ^ nat e)
      in if 971 < e \<or> (e = 971 \<and> m = 2 ^ 53) then Infinity else Finite (s * m) e)"

definition rnd_quot :: "int \<Rightarrow> int \<Rightarrow> double" where
  "rnd_quot p q =
     (if p = 0 then Finite 0 0
      else rnd_mag (sgn p * sgn q) \<bar>p\<bar> \<bar>q\<bar> (max (quot_exponent \<bar>p\<bar> \<bar>q\<bar>) (- 1074)))"

text \<open>Conversion of an integer, division and multiplication.\<close>

definition double_of_int :: "int \<Rightarrow> double" where
  "double_of_int n = rnd_quot n 1"

fun ddiv :: "double \<Rightarrow> double \<Rightarrow> double" where
  "ddiv (Finite m e) (Finite n f) =
     (if n = 0 then (if m = 0 then NaN else Infinity)
      else rnd_quot (m * 2 ^ nat (e - f)) (n * 2 ^ nat (f - e)))"
| "ddiv (Finite m e) Infinity = Finite 0 0"
| "ddiv Infinity (Finite n f) = Infinity"
| "ddiv Infinity Infinity = NaN"
| "ddiv NaN y = NaN"
| "ddiv (Finite m e) NaN = NaN"
| "ddiv Infinity NaN = NaN"

fun dmul :: "double \<Rightarrow> double \<Rightarrow> double" where
  "dmul (Finite m e) (Finite n f) = rnd_quot (m * n * 2 ^ nat (e + f)) (2 ^ nat (- (e + f)))"
| "dmul (Finite m e) Infinity = (if m = 0 then NaN else Infinity)"
| "dmul Infinity (Finite n f) = (if n = 0 then NaN else Infinity)"
| "dmul Infinity Infinity = Infinity"
| "dmul NaN y = NaN"
| "dmul (Finite m e) NaN = NaN"
| "dmul Infinity NaN = NaN"

text \<open>C's \<^verbatim>\<open>round\<close>: to the nearest integer, halfway cases away from zero.\<close>

fun c_round :: "double \<Rightarrow> double" where
  "c_round (Finite m e) =
     (if 0 \<le> e then Finite m e
      else Finite (sgn m * ((2 * \<bar>m\<bar> + 2 ^ nat (- e)) div (2 * 2 ^ nat (- e)))) 0)"
| "c_round Infinity = Infinity"
| "c_round NaN = NaN"

text \<open>
  The conversion \<^verbatim>\<open>(int)\<close> truncates.  C leaves it undefined for a value that does not
  fit; the instruction that an x86-64 compiler emits for it, \<^verbatim>\<open>cvttsd2si\<close>, then gives
  \<open>- (2 ^ 31)\<close>, also for an infinity and a NaN.
\<close>

fun int_of_double :: "double \<Rightarrow> int" where
  "int_of_double (Finite m e) =
     (let t = sgn m * (\<bar>m\<bar> * 2 ^ nat e div 2 ^ nat (- e))
      in if - (2 ^ 31) \<le> t \<and> t < 2 ^ 31 then t else - (2 ^ 31))"
| "int_of_double Infinity = - (2 ^ 31)"
| "int_of_double NaN = - (2 ^ 31)"

text \<open>
  \<^verbatim>\<open>av_q2d\<close> of the library computes \<^verbatim>\<open>a.num / (double) a.den\<close>; the two components
  are \<^verbatim>\<open>int\<close>s.
\<close>

definition av_q2d :: "int \<times> int \<Rightarrow> double" where
  "av_q2d a = ddiv (double_of_int (fst a)) (double_of_int (snd a))"

text \<open>
  \<^verbatim>\<open>(int) round((double) rel / (1000.0f * av_q2d(time_base)))\<close>, where \<open>rel\<close> is a
  \<^verbatim>\<open>long\<close>; the constant \<^verbatim>\<open>1000.0f\<close> is converted to \<^verbatim>\<open>double\<close> without change.
\<close>

definition rescale_ts :: "int \<Rightarrow> int \<times> int \<Rightarrow> int" where
  "rescale_ts rel tb =
     int_of_double (c_round (ddiv (double_of_int rel) (dmul (Finite 1000 0) (av_q2d tb))))"

text \<open>
  Conversions between \<^verbatim>\<open>int\<close>, \<^verbatim>\<open>size_t\<close> and \<^verbatim>\<open>uint32_t\<close>, and addition on
  \<^verbatim>\<open>int\<close>, as a two's complement machine does them.
\<close>

definition int_of_size :: "nat \<Rightarrow> int" where
  "int_of_size n = sint (word_of_nat n :: u32)"

definition size_of_int :: "int \<Rightarrow> nat" where
  "size_of_int i = nat (i mod 2 ^ 64)"

definition int_add :: "int \<Rightarrow> int \<Rightarrow> int" where
  "int_add a b = sint (word_of_int (a + b) :: u32)"

record extract_state =
  packet_buffer :: "cell list option"
  packet_buffer_length :: nat
  packet_buffer_offset :: int
  written :: "AVPacket list"

definition extract_init :: extract_state where
  "extract_init =
     \<lparr>packet_buffer = None, packet_buffer_length = 0, packet_buffer_offset = 0,
      written = []\<rparr>"

text \<open>
  Modelled from the spec: the structure \<^verbatim>\<open>H264_Nal_Header_t\<close> that the loop casts
  \<^verbatim>\<open>packet_buffer + packet_buffer_offset\<close> to is not declared in the sources at hand;
  the header file declares \<^verbatim>\<open>H26X_Nal_Header_t\<close>, four bytes of start code and one
  byte of bit fields of which \<^verbatim>\<open>unit_type\<close> is the first and 5 bits wide.  The layout
  is taken as the spec gives it: the type is the low 5 bits of the byte that follows the
  4-byte start code.  \<^verbatim>\<open>nal_header->unit_type\<close> is then the low 5 bits of the cell at
  index \<open>offset + 4\<close>; where that cell is outside the buffer or was never written, the read
  has no defined value.
\<close>

definition nal_unit_type :: "cell list option \<Rightarrow> int \<Rightarrow> byte option" where
  "nal_unit_type buf off =
     (case buf of
        None \<Rightarrow> None
      | Some cells \<Rightarrow>
          if 0 \<le> off \<and> nat off + 4 < length cells then
            (case cells ! (nat off + 4) of
               None \<Rightarrow> None
             | Some b \<Rightarrow> Some (b AND 31))
          else None)"

definition buffer_cells :: "cell list option \<Rightarrow> cell list" where
  "buffer_cells buf = (case buf of None \<Rightarrow> [] | Some cells \<Rightarrow> cells)"

text \<open>The \<^verbatim>\<open>HXVF\<close> case of the second \<^verbatim>\<open>switch\<close>, after the tag.\<close>

definition extract_hxvf ::
  "muxer \<Rightarrow> infer_state \<Rightarrow> FILE \<Rightarrow> extract_state \<Rightarrow> error + (FILE \<times> extract_state \<times> bool)" where
  "extract_hxvf mx ist fp1 st =
     (let (d, fp2) = fread fp1 sizeof_HXVFFrame_t in
      if length d \<noteq> sizeof_HXVFFrame_t then Inl TruncatedStream
      else
        let len = field32 d 0;
            ts = field32 d 4;
            (n, fp3, buf, blen) =
              ReadToBuffer fp2 (packet_buffer st) (size_of_int (packet_buffer_offset st))
                (unat len) (packet_buffer_length st);
            retval = int_of_size n
        in
          if (word_of_int retval :: u32) < len then Inl TruncatedStream
          else
            case nal_unit_type buf (packet_buffer_offset st) of
              None \<Rightarrow> Inl InvalidRead
            | Some unit_type \<Rightarrow>
                if unit_type = 7 \<or> unit_type = 8 then
                  Inr (fp3,
                       st\<lparr>packet_buffer := buf, packet_buffer_length := blen,
                          packet_buffer_offset := int_add (packet_buffer_offset st) retval\<rparr>,
                       False)
                else
                  let packet =
                        \<lparr>data = take (nat (int_add retval (packet_buffer_offset st)))
                                   (buffer_cells buf),
                         stream_index = Video,
                         pts = rescale_ts (uint ts - video_ts_initial ist) (v_time_base mx)\<rparr>
                  in Inr (fp3,
                          st\<lparr>packet_buffer := buf, packet_buffer_length := blen,
                             packet_buffer_offset := 0,
                             written := written st @ [packet]\<rparr>,
                          False))"

text \<open>
  The \<^verbatim>\<open>HXAF\<close> case, after the tag; \<open>a_stream\<close> tells whether the audio stream was
  created.
\<close>

definition extract_hxaf ::
  "muxer \<Rightarrow> infer_state \<Rightarrow> bool \<Rightarrow> FILE \<Rightarrow> extract_state \<Rightarrow>
     error + (FILE \<times> extract_state \<times> bool)" where
  "extract_hxaf mx ist a_stream fp1 st =
     (let (d, fp2) = fread fp1 sizeof_HXAFFrame_t in
      if length d \<noteq> sizeof_HXAFFrame_t then Inl TruncatedStream
      else
        let len = field32 d 0;
            ts = field32 d 4
        in
          if a_stream then
            (let (n, fp3, buf, blen) =
                   ReadToBuffer fp2 (packet_buffer st) 0 (unat (len - 4))
                     (packet_buffer_length st);
                 retval = int_of_size n
             in
               if (word_of_int retval :: u32) < len - 4 then Inl TruncatedStream
               else
                 let packet =
                       \<lparr>data = take (nat retval) (buffer_cells buf),
                        stream_index = Audio,
                        pts = rescale_ts (uint ts - audio_ts_initial ist) (a_time_base mx)\<rparr>
                 in Inr (fp3,
                         st\<lparr>packet_buffer := buf, packet_buffer_length := blen,
                            written := written st @ [packet]\<rparr>,
                         False))
          else
            (case fseek_cur fp2 (uint (len - 4)) of
               None \<Rightarrow> Inl SeekFailure
             | Some fp3 \<Rightarrow> Inr (fp3, st, False)))"

text \<open>One iteration of the second \<^verbatim>\<open>do ... while\<close> loop.\<close>

definition extract_step ::
  "muxer \<Rightarrow> infer_state \<Rightarrow> bool \<Rightarrow> FILE \<Rightarrow> extract_state \<Rightarrow>
     error + (FILE \<times> extract_state \<times> bool)" where
  "extract_step mx ist a_stream fp st =
     (let (hdr, fp1) = fread fp 4 in
      if length hdr \<noteq> 4 then Inl TruncatedStream
      else
        let header = le32 hdr in
        if header = HXVS then
          (case fseek_cur fp1 (int sizeof_HXVSFrame_t) of
             None \<Rightarrow> Inl SeekFailure
           | Some fp2 \<Rightarrow> Inr (fp2, st, False))
        else if header = HXVF then extract_hxvf mx ist fp1 st
        else if header = HXAF then extract_hxaf mx ist a_stream fp1 st
        else if header = HXFI then Inr (fp1, st, True)
        else Inr (fp1, st, False))"

lemma ReadToBuffer_stream:
  assumes "ReadToBuffer fp dest off len sz = (n, fp', buf, blen)"
  shows "f_bytes fp' = f_bytes fp \<and> f_pos fp \<le> f_pos fp'"
  using assms
  by (auto simp: ReadToBuffer_def Let_def fread_def split: if_splits)

lemma extract_hxvf_progress:
  assumes "extract_hxvf mx ist fp st = Inr (fp', st', h)"
  shows "f_bytes fp' = f_bytes fp \<and> f_pos fp \<le> f_pos fp'"
proof -
  obtain d fp2 where r: "fread fp sizeof_HXVFFrame_t = (d, fp2)"
    by (cases "fread fp sizeof_HXVFFrame_t")
  obtain n fp3 buf blen where
    rb: "ReadToBuffer fp2 (packet_buffer st) (size_of_int (packet_buffer_offset st))
           (unat (field32 d 0)) (packet_buffer_length st) = (n, fp3, buf, blen)"
    by (metis prod_cases4)
  from assms r rb have "fp' = fp3"
    by (auto simp: extract_hxvf_def Let_def split: if_splits option.splits)
  with fread_facts(1,2) [OF r] ReadToBuffer_stream [OF rb] show ?thesis
    by simp
qed

lemma extract_hxaf_progress:
  assumes "extract_hxaf mx ist a fp st = Inr (fp', st', h)"
  shows "f_bytes fp' = f_bytes fp \<and> f_pos fp \<le> f_pos fp'"
proof -
  obtain d fp2 where r: "fread fp sizeof_HXAFFrame_t = (d, fp2)"
    by (cases "fread fp sizeof_HXAFFrame_t")
  obtain n fp3 buf blen where
    rb: "ReadToBuffer fp2 (packet_buffer st) 0 (unat (field32 d 0 - 4))
           (packet_buffer_length st) = (n, fp3, buf, blen)"
    by (metis prod_cases4)
  from assms r rb have "f_bytes fp' = f_bytes fp2 \<and> f_pos fp2 \<le> f_pos fp'"
    using ReadToBuffer_stream [OF rb]
    by (auto simp: extract_hxaf_def Let_def split: if_splits option.splits
             dest!: fseek_cur_uint)
  with fread_facts(1,2) [OF r] show ?thesis
    by simp
qed

lemma fseek_cur_nat:
  assumes "fseek_cur fp (int n) = Some fp'"
  shows "f_bytes fp' = f_bytes fp \<and> f_pos fp \<le> f_pos fp'"
  using fseek_cur_facts(1,2) [OF assms] by simp

lemma extract_step_progress:
  assumes "extract_step mx ist a fp st = Inr (fp', st', h)"
  shows "f_bytes fp' = f_bytes fp \<and> f_pos fp + 4 \<le> f_pos fp'
         \<and> f_pos fp + 4 \<le> length (f_bytes fp)"
proof -
  obtain hdr fp1 where r1: "fread fp 4 = (hdr, fp1)"
    by (cases "fread fp 4")
  with assms have len: "length hdr = 4"
    by (auto simp: extract_step_def split: if_splits)
  note f1 = fread_facts [OF r1] fread_full [OF r1 len]
  have "f_bytes fp' = f_bytes fp1 \<and> f_pos fp1 \<le> f_pos fp'"
    using assms r1 len
    by (auto simp: extract_step_def Let_def sizeof_HXVSFrame_t_def
             split: if_splits option.splits
             dest!: fseek_cur_nat [of _ 12, simplified] extract_hxvf_progress
                    extract_hxaf_progress)
  with f1 len show ?thesis by simp
qed

text \<open>
  The second loop.  Packets that were written stay written when the loop ends in an
  \<^verbatim>\<open>exit(1)\<close>: the result is the error, if any, and the variables as they were then.
\<close>

function extract_loop ::
  "muxer \<Rightarrow> infer_state \<Rightarrow> bool \<Rightarrow> FILE \<Rightarrow> extract_state \<Rightarrow> error option \<times> extract_state" where
  "extract_loop mx ist a_stream fp st =
     (case extract_step mx ist a_stream fp st of
        Inl e \<Rightarrow> (Some e, st)
      | Inr (fp', st', hxfi_detected) \<Rightarrow>
          if \<not> feof fp' \<and> \<not> hxfi_detected then extract_loop mx ist a_stream fp' st'
          else (None, st'))"
  by pat_completeness auto
termination
proof (relation "measure (\<lambda>(mx, ist, a, fp, st). length (f_bytes fp) - f_pos fp)")
  show "wf (measure (\<lambda>(mx, ist, a, fp, st). length (f_bytes fp) - f_pos fp))"
    by simp
next
  fix mx :: muxer and ist :: infer_state and a_stream fp st x2 fp' y st' hxfi_detected
  assume "extract_step mx ist a_stream fp st = Inr x2" "(fp', y) = x2"
    "(st', hxfi_detected) = y"
  then have step: "extract_step mx ist a_stream fp st = Inr (fp', st', hxfi_detected)"
    by simp
  from extract_step_progress [OF step]
  have "length (f_bytes fp) - f_pos fp' < length (f_bytes fp) - f_pos fp"
    by arith
  then show "((mx, ist, a_stream, fp', st'), (mx, ist, a_stream, fp, st))
              \<in> measure (\<lambda>(mx, ist, a, fp, st). length (f_bytes fp) - f_pos fp)"
    using extract_step_progress [OF step] by simp
qed

declare extract_loop.simps [simp del]

section \<open>The program\<close>

text \<open>
  What a run leaves behind: the exit status (\<open>None\<close> is \<^verbatim>\<open>return 0\<close>), the streams
  created with \<^verbatim>\<open>avformat_new_stream\<close> and the packets written, in order.  The calls
  into the container library are taken to succeed; option parsing and the choice of the
  output file are not modelled, \<open>skip_audio\<close> is the option \<^verbatim>\<open>-n\<close>.
\<close>

record outcome =
  status :: "error option"
  new_streams :: "stream list"
  frames :: "AVPacket list"

definition main :: "bool \<Rightarrow> muxer \<Rightarrow> byte list \<Rightarrow> outcome" where
  "main skip_audio mx input =
     (case infer_loop (fopen input) infer_init of
        Inl e \<Rightarrow> \<lparr>status = Some e, new_streams = [], frames = []\<rparr>
      | Inr (fp, ist) \<Rightarrow>
          (case fseek_set0 fp of
             None \<Rightarrow> \<lparr>status = Some SeekFailure, new_streams = [], frames = []\<rparr>
           | Some fp0 \<Rightarrow>
               if video_avg_frame_rate ist \<le> 0 then
                 \<lparr>status = Some NoVideoDetected, new_streams = [], frames = []\<rparr>
               else
                 let a_stream = (\<not> skip_audio \<and> \<not> audio_avg_sample_rate ist \<le> 0);
                     (r, est) = extract_loop mx ist a_stream fp0 extract_init
                 in \<lparr>status = r,
                     new_streams = Video # (if a_stream then [Audio] else []),
                     frames = written est\<rparr>))"

section \<open>Inputs\<close>

text \<open>
  The packets of the file format, as byte sequences: a video size packet, a video frame and
  an audio frame with their payloads, and the end marker.  \<open>file_at pre rest\<close> is the
  open stream that has read \<open>pre\<close> and has \<open>rest\<close> before it.
\<close>

definition bytes32 :: "u32 \<Rightarrow> byte list" where
  "bytes32 w = [ucast w, ucast (drop_bit 8 w), ucast (drop_bit 16 w), ucast (drop_bit 24 w)]"

definition hxvs_packet :: "u32 \<Rightarrow> u32 \<Rightarrow> byte list" where
  "hxvs_packet w h = bytes32 HXVS @ bytes32 w @ bytes32 h @ replicate 4 0"

definition hxvt_packet :: "u32 \<Rightarrow> u32 \<Rightarrow> byte list" where
  "hxvt_packet w h = bytes32 HXVT @ bytes32 w @ bytes32 h @ replicate 4 0"

definition hxvf_header :: "u32 \<Rightarrow> u32 \<Rightarrow> byte list" where
  "hxvf_header len ts = bytes32 HXVF @ bytes32 len @ bytes32 ts @ replicate 4 0"

definition hxvf_packet :: "u32 \<Rightarrow> byte list \<Rightarrow> byte list" where
  "hxvf_packet ts payload = hxvf_header (word_of_nat (length payload)) ts @ payload"

definition hxaf_header :: "u32 \<Rightarrow> u32 \<Rightarrow> byte list" where
  "hxaf_header len ts = bytes32 HXAF @ bytes32 len @ bytes32 ts @ replicate 8 0"

definition hxaf_packet :: "u32 \<Rightarrow> byte list \<Rightarrow> byte list" where
  "hxaf_packet ts samples = hxaf_header (word_of_nat (length samples) + 4) ts @ samples"

definition hxfi_packet :: "byte list" where
  "hxfi_packet = bytes32 HXFI @ replicate 16 0"

definition file_at :: "byte list \<Rightarrow> byte list \<Rightarrow> FILE" where
  "file_at pre rest = \<lparr>f_bytes = pre @ rest, f_pos = length pre, f_eof = False\<rparr>"

lemma length_bytes32 [simp]: "length (bytes32 w) = 4"
  by (simp add: bytes32_def)

lemma le32_bytes32 [simp]: "le32 (bytes32 w) = w"
  unfolding bytes32_def le32.simps
proof (rule bit_word_eqI)
  fix n
  assume "n < LENGTH(32)"
  then consider "n < 8" | "8 \<le> n" "n < 16" | "16 \<le> n" "n < 24" | "24 \<le> n" "n < 32"
    by fastforce
  then show "bit (ucast (ucast w :: byte) OR push_bit 8 (ucast (ucast (drop_bit 8 w) :: byte))
                  OR push_bit 16 (ucast (ucast (drop_bit 16 w) :: byte))
                  OR push_bit 24 (ucast (ucast (drop_bit 24 w) :: byte)) :: u32) n = bit w n"
    by cases (auto simp: bit_simps)
qed

lemma fopen_file_at: "fopen bs = file_at [] bs"
  by (simp add: fopen_def file_at_def)

lemma fread_file_at:
  "length xs = n \<Longrightarrow> fread (file_at pre (xs @ rest)) n = (xs, file_at (pre @ xs) rest)"
  by (simp add: fread_def file_at_def)

lemma fseek_cur_file_at:
  "length xs = n \<Longrightarrow> fseek_cur (file_at pre (xs @ rest)) (int n) = Some (file_at (pre @ xs) rest)"
  by (simp add: fseek_cur_def file_at_def)

lemma feof_file_at [simp]: "\<not> feof (file_at pre rest)"
  by (simp add: feof_def file_at_def)

lemma tags_distinct:
  "HXVS \<noteq> HXVT" "HXVS \<noteq> HXVF" "HXVS \<noteq> HXAF" "HXVS \<noteq> HXFI"
  "HXVT \<noteq> HXVF" "HXVT \<noteq> HXAF" "HXVT \<noteq> HXFI"
  "HXVF \<noteq> HXAF" "HXVF \<noteq> HXFI" "HXAF \<noteq> HXFI"
  "HXVT \<noteq> HXVS" "HXVF \<noteq> HXVS" "HXAF \<noteq> HXVS" "HXFI \<noteq> HXVS"
  "HXVF \<noteq> HXVT" "HXAF \<noteq> HXVT" "HXFI \<noteq> HXVT"
  "HXAF \<noteq> HXVF" "HXFI \<noteq> HXVF" "HXFI \<noteq> HXAF"
  by (simp_all add: HXVS_def HXVT_def HXVF_def HXAF_def HXFI_def)

lemma field32_0 [simp]: "field32 (bytes32 w @ xs) 0 = w"
  by (simp add: field32_def)

lemma field32_4 [simp]: "field32 (bytes32 v @ bytes32 w @ xs) 4 = w"
  by (simp add: field32_def)

lemma infer_step_hxvs:
  "infer_step (file_at pre (hxvs_packet w h @ rest)) st =
     Inr (file_at (pre @ hxvs_packet w h) rest,
          st\<lparr>video_w := Some (sint w), video_h := Some (sint h)\<rparr>, False)"
  by (simp add: infer_step_def hxvs_packet_def fread_file_at sizeof_HXVSFrame_t_def
        fread_file_at [where xs = "bytes32 w @ bytes32 h @ replicate 4 0", simplified])


lemma length_headers [simp]:
  "length (hxvs_packet w h) = 16" "length (hxvt_packet w h) = 16"
  "length (hxvf_header len ts) = 16" "length (hxaf_header len ts) = 20"
  "length (hxvf_packet ts pl) = 16 + length pl"
  "length (hxaf_packet ts pl) = 20 + length pl"
  "length hxfi_packet = 20"
  by (simp_all add: hxvs_packet_def hxvt_packet_def hxvf_header_def hxaf_header_def
        hxvf_packet_def hxaf_packet_def hxfi_packet_def)

lemma unat_len32: "n < 2 ^ 32 \<Longrightarrow> unat (word_of_nat n :: u32) = n"
  by (simp add: unat_of_nat)

lemma uint_len32: "n < 2 ^ 32 \<Longrightarrow> uint (word_of_nat n :: u32) = int n"
  by (simp add: uint_nat unat_len32)

lemma fseek_cur_uint_eq:
  "fseek_cur \<lparr>f_bytes = bs, f_pos = p, f_eof = e\<rparr> (uint (w :: u32)) =
     Some \<lparr>f_bytes = bs, f_pos = p + unat w, f_eof = False\<rparr>"
proof -
  have "0 \<le> uint w" by simp
  then have "\<not> int p + uint w < 0" by linarith
  then show ?thesis
    by (simp add: fseek_cur_def nat_add_distrib)
qed

lemma fread_short:
  assumes "length (f_bytes fp) < f_pos fp + n" and "fread fp n = (got, fp')" and "0 < n"
  shows "length got \<noteq> n"
proof -
  from assms(2) have "length got = min (length (f_bytes fp) - f_pos fp) n"
    by (auto simp: fread_def Let_def)
  with assms(1,3) show ?thesis by arith
qed

lemma infer_step_eof:
  assumes "length (f_bytes fp) < f_pos fp + 4"
  shows "infer_step fp st = Inl TruncatedStream"
proof -
  obtain hdr fp1 where r: "fread fp 4 = (hdr, fp1)"
    by (cases "fread fp 4")
  from fread_short [OF assms r] r show ?thesis
    by (simp add: infer_step_def)
qed

lemma infer_step_hxvf_header:
  "infer_step (file_at pre (hxvf_header len ts @ rest)) st =
     Inr (\<lparr>f_bytes = pre @ hxvf_header len ts @ rest,
           f_pos = length pre + 16 + unat len, f_eof = False\<rparr>,
          video_rate_update st ts, False)"
  apply (simp add: infer_step_def hxvf_header_def fread_file_at sizeof_HXVFFrame_t_def
        fread_file_at [where xs = "bytes32 len @ bytes32 ts @ replicate 4 0", simplified]
        tags_distinct)
  apply (simp add: file_at_def fseek_cur_uint_eq)
  done

lemma infer_step_hxaf_header:
  "infer_step (file_at pre (hxaf_header len ts @ rest)) st =
     Inr (\<lparr>f_bytes = pre @ hxaf_header len ts @ rest,
           f_pos = length pre + 20 + unat (len - 4), f_eof = False\<rparr>,
          audio_rate_update st len ts, False)"
  apply (simp add: infer_step_def hxaf_header_def fread_file_at sizeof_HXAFFrame_t_def
        fread_file_at [where xs = "bytes32 len @ bytes32 ts @ replicate 8 0", simplified]
        tags_distinct)
  apply (simp add: file_at_def fseek_cur_uint_eq)
  done

lemma infer_step_hxvf:
  assumes "length pl < 2 ^ 32"
  shows "infer_step (file_at pre (hxvf_packet ts pl @ rest)) st =
           Inr (file_at (pre @ hxvf_packet ts pl) rest, video_rate_update st ts, False)"
  using assms
  by (simp add: hxvf_packet_def infer_step_hxvf_header unat_len32)
     (simp add: file_at_def)

lemma infer_step_hxaf:
  assumes "length pl + 4 < 2 ^ 32"
  shows "infer_step (file_at pre (hxaf_packet ts pl @ rest)) st =
           Inr (file_at (pre @ hxaf_packet ts pl) rest,
                audio_rate_update st (word_of_nat (length pl) + 4) ts, False)"
  using assms
  by (simp add: hxaf_packet_def infer_step_hxaf_header unat_len32)
     (simp add: file_at_def)

lemma infer_step_hxfi:
  "infer_step (file_at pre (bytes32 HXFI @ rest)) st =
     Inr (file_at (pre @ bytes32 HXFI) rest, st, True)"
  by (simp add: infer_step_def fread_file_at tags_distinct)

lemma infer_step_unknown:
  assumes "tag \<noteq> HXVS" "tag \<noteq> HXVF" "tag \<noteq> HXAF" "tag \<noteq> HXFI"
  shows "infer_step (file_at pre (bytes32 tag @ rest)) st =
           Inr (file_at (pre @ bytes32 tag) rest, st, False)"
  using assms by (simp add: infer_step_def fread_file_at)

lemma infer_loop_next:
  "infer_step fp st = Inr (fp', st', False) \<Longrightarrow> \<not> feof fp' \<Longrightarrow>
   infer_loop fp st = infer_loop fp' st'"
  by (subst infer_loop.simps) simp

lemma infer_loop_eof:
  "length rest < 4 \<Longrightarrow> infer_loop (file_at pre rest) st = Inl TruncatedStream"
  by (subst infer_loop.simps) (simp add: infer_step_eof file_at_def)

lemma infer_loop_hxvs:
  "infer_loop (file_at pre (hxvs_packet w h @ rest)) st =
     infer_loop (file_at (pre @ hxvs_packet w h) rest)
       (st\<lparr>video_w := Some (sint w), video_h := Some (sint h)\<rparr>)"
  by (rule infer_loop_next) (simp_all add: infer_step_hxvs)

lemma infer_loop_hxvf:
  "length pl < 2 ^ 32 \<Longrightarrow>
   infer_loop (file_at pre (hxvf_packet ts pl @ rest)) st =
     infer_loop (file_at (pre @ hxvf_packet ts pl) rest) (video_rate_update st ts)"
  by (rule infer_loop_next) (simp_all add: infer_step_hxvf)

lemma infer_loop_hxaf:
  "length pl + 4 < 2 ^ 32 \<Longrightarrow>
   infer_loop (file_at pre (hxaf_packet ts pl @ rest)) st =
     infer_loop (file_at (pre @ hxaf_packet ts pl) rest)
       (audio_rate_update st (word_of_nat (length pl) + 4) ts)"
  by (rule infer_loop_next) (simp_all add: infer_step_hxaf)

lemma infer_loop_hxfi:
  "infer_loop (file_at pre (bytes32 HXFI @ rest)) st =
     Inr (file_at (pre @ bytes32 HXFI) rest, st)"
  by (subst infer_loop.simps) (simp add: infer_step_hxfi)

lemma infer_loop_unknown:
  assumes "tag \<noteq> HXVS" "tag \<noteq> HXVF" "tag \<noteq> HXAF" "tag \<noteq> HXFI"
  shows "infer_loop (file_at pre (bytes32 tag @ rest)) st =
           infer_loop (file_at (pre @ bytes32 tag) rest) st"
  by (rule infer_loop_next) (simp_all add: infer_step_unknown assms)

lemmas infer_loop_last =
  infer_loop_hxvs [where rest = "[]", simplified]
  infer_loop_hxvf [where rest = "[]", simplified]
  infer_loop_hxaf [where rest = "[]", simplified]


definition buffer_for :: "cell list option \<Rightarrow> nat \<Rightarrow> nat \<Rightarrow> nat \<Rightarrow> cell list" where
  "buffer_for dest dest_offset need dest_size =
     (case (case dest of
              None \<Rightarrow> None
            | Some cells \<Rightarrow>
                if dest_size < need then
                  (if dest_offset \<noteq> 0 then Some (realloc cells need) else None)
                else Some cells) of
        None \<Rightarrow> malloc need
      | Some cells \<Rightarrow> cells)"

lemma ReadToBuffer_file_at:
  assumes "0 < length pl"
  shows "ReadToBuffer (file_at pre (pl @ rest)) dest off (length pl) sz =
           (length pl, file_at (pre @ pl) rest,
            Some (store_bytes (buffer_for dest off ((length pl + off) mod 2 ^ 64) sz) off pl),
            (length pl + off) mod 2 ^ 64)"
  using assms by (simp add: ReadToBuffer_def Let_def fread_file_at buffer_for_def)

lemma int_of_size_small: "n < 2 ^ 31 \<Longrightarrow> int_of_size n = int n"
  by (simp add: int_of_size_def signed_of_nat signed_take_bit_int_eq_self)

lemma size_of_int_small: "0 \<le> i \<Longrightarrow> i < 2 ^ 64 \<Longrightarrow> size_of_int i = nat i"
  by (simp add: size_of_int_def)

lemma int_add_small: "- (2 ^ 31) \<le> a + b \<Longrightarrow> a + b < 2 ^ 31 \<Longrightarrow> int_add a b = a + b"
proof -
  assume r: "- (2 ^ 31) \<le> a + b" "a + b < 2 ^ 31"
  define c where "c = a + b"
  have "sint (word_of_int c :: u32) = signed_take_bit 31 c"
    by (simp add: signed_of_int)
  also have "\<dots> = c"
    using r by (simp add: c_def signed_take_bit_int_eq_self)
  finally show ?thesis
    by (simp only: int_add_def c_def)
qed

lemma word_of_size_less:
  "n < 2 ^ 32 \<Longrightarrow> ((word_of_nat n :: u32) < len) = (n < unat len)"
  by (simp add: word_less_nat_alt unat_len32)


lemma extract_step_eof:
  assumes "length (f_bytes fp) < f_pos fp + 4"
  shows "extract_step mx ist a fp st = Inl TruncatedStream"
proof -
  obtain hdr fp1 where r: "fread fp 4 = (hdr, fp1)"
    by (cases "fread fp 4")
  from fread_short [OF assms r] r show ?thesis
    by (simp add: extract_step_def)
qed

lemma extract_step_hxvs:
  "extract_step mx ist a (file_at pre (hxvs_packet w h @ rest)) st =
     Inr (file_at (pre @ hxvs_packet w h) rest, st, False)"
  apply (simp add: extract_step_def hxvs_packet_def fread_file_at sizeof_HXVSFrame_t_def)
  apply (simp add: fseek_cur_file_at [where xs = "bytes32 w @ bytes32 h @ replicate 4 0"
                     and n = 12, simplified])
  done

lemma extract_step_hxfi:
  "extract_step mx ist a (file_at pre (bytes32 HXFI @ rest)) st =
     Inr (file_at (pre @ bytes32 HXFI) rest, st, True)"
  by (simp add: extract_step_def fread_file_at tags_distinct)

lemma extract_step_unknown:
  assumes "tag \<noteq> HXVS" "tag \<noteq> HXVF" "tag \<noteq> HXAF" "tag \<noteq> HXFI"
  shows "extract_step mx ist a (file_at pre (bytes32 tag @ rest)) st =
           Inr (file_at (pre @ bytes32 tag) rest, st, False)"
  using assms by (simp add: extract_step_def fread_file_at)

lemma extract_step_hxvf:
  assumes "0 < length pl" and "0 \<le> packet_buffer_offset st"
    and "packet_buffer_offset st + int (length pl) < 2 ^ 31"
  shows "extract_step mx ist a (file_at pre (hxvf_packet ts pl @ rest)) st =
     (let off = packet_buffer_offset st;
          need = length pl + nat off;
          cells = store_bytes
                    (buffer_for (packet_buffer st) (nat off) need (packet_buffer_length st))
                    (nat off) pl
      in case nal_unit_type (Some cells) off of
           None \<Rightarrow> Inl InvalidRead
         | Some t \<Rightarrow>
             if t = 7 \<or> t = 8 then
               Inr (file_at (pre @ hxvf_packet ts pl) rest,
                    st\<lparr>packet_buffer := Some cells, packet_buffer_length := need,
                       packet_buffer_offset := off + int (length pl)\<rparr>, False)
             else
               Inr (file_at (pre @ hxvf_packet ts pl) rest,
                    st\<lparr>packet_buffer := Some cells, packet_buffer_length := need,
                       packet_buffer_offset := 0,
                       written := written st @
                         [\<lparr>data = take need cells, stream_index = Video,
                           pts = rescale_ts (uint ts - video_ts_initial ist)
                                   (v_time_base mx)\<rparr>]\<rparr>, False))"
proof -
  let ?off = "packet_buffer_offset st"
  have small: "length pl < 2 ^ 31" "length pl < 2 ^ 32" "?off < 2 ^ 64"
    "length pl + nat ?off < 2 ^ 64"
    using assms by auto
  have conv: "int_of_size (length pl) = int (length pl)" "size_of_int ?off = nat ?off"
    "int_add ?off (int (length pl)) = ?off + int (length pl)"
    "int_add (int (length pl)) ?off = ?off + int (length pl)"
    "unat (word_of_nat (length pl) :: u32) = length pl"
    using assms small
    by (simp_all add: int_of_size_small size_of_int_small int_add_small unat_len32)
  have rd: "fread (file_at (pre @ bytes32 HXVF)
                     (bytes32 (word_of_nat (length pl)) @ bytes32 ts @ replicate 4 0 @ pl @ rest)) 12
            = (bytes32 (word_of_nat (length pl)) @ bytes32 ts @ replicate 4 0,
               file_at (pre @ bytes32 HXVF @ bytes32 (word_of_nat (length pl)) @ bytes32 ts
                          @ replicate 4 0) (pl @ rest))"
    using fread_file_at [where xs = "bytes32 (word_of_nat (length pl)) @ bytes32 ts @ replicate 4 0"
             and n = 12 and pre = "pre @ bytes32 HXVF" and rest = "pl @ rest"]
    by simp
  show ?thesis
    using assms small
    by (simp add: extract_step_def hxvf_packet_def hxvf_header_def fread_file_at tags_distinct
          extract_hxvf_def sizeof_HXVFFrame_t_def rd conv ReadToBuffer_file_at Let_def
          buffer_cells_def nat_add_distrib add_ac split: option.split)
qed


lemma extract_step_hxaf_skip:
  assumes "length pl + 4 < 2 ^ 32"
  shows "extract_step mx ist False (file_at pre (hxaf_packet ts pl @ rest)) st =
           Inr (file_at (pre @ hxaf_packet ts pl) rest, st, False)"
proof -
  have rd: "fread (file_at (pre @ bytes32 HXAF)
                     (bytes32 (word_of_nat (length pl) + 4) @ bytes32 ts @ replicate 8 0
                        @ pl @ rest)) 16
            = (bytes32 (word_of_nat (length pl) + 4) @ bytes32 ts @ replicate 8 0,
               file_at (pre @ bytes32 HXAF @ bytes32 (word_of_nat (length pl) + 4)
                          @ bytes32 ts @ replicate 8 0) (pl @ rest))"
    using fread_file_at [where xs = "bytes32 (word_of_nat (length pl) + 4) @ bytes32 ts
                                      @ replicate 8 0"
             and n = 16 and pre = "pre @ bytes32 HXAF" and rest = "pl @ rest"]
    by simp
  have len: "uint (word_of_nat (length pl) :: u32) = int (length pl)"
    using assms by (simp add: uint_len32)
  show ?thesis
    using assms
    by (simp add: extract_step_def hxaf_packet_def hxaf_header_def fread_file_at tags_distinct
          extract_hxaf_def sizeof_HXAFFrame_t_def rd Let_def len fseek_cur_file_at)
qed

lemma extract_step_hxaf_stream:
  assumes "0 < length pl" and "length pl < 2 ^ 31"
  shows "extract_step mx ist True (file_at pre (hxaf_packet ts pl @ rest)) st =
     (let cells = store_bytes
                    (buffer_for (packet_buffer st) 0 (length pl) (packet_buffer_length st))
                    0 pl
      in Inr (file_at (pre @ hxaf_packet ts pl) rest,
              st\<lparr>packet_buffer := Some cells, packet_buffer_length := length pl,
                 written := written st @
                   [\<lparr>data = take (length pl) cells, stream_index = Audio,
                     pts = rescale_ts (uint ts - audio_ts_initial ist)
                             (a_time_base mx)\<rparr>]\<rparr>, False))"
proof -
  have rd: "fread (file_at (pre @ bytes32 HXAF)
                     (bytes32 (word_of_nat (length pl) + 4) @ bytes32 ts @ replicate 8 0
                        @ pl @ rest)) 16
            = (bytes32 (word_of_nat (length pl) + 4) @ bytes32 ts @ replicate 8 0,
               file_at (pre @ bytes32 HXAF @ bytes32 (word_of_nat (length pl) + 4)
                          @ bytes32 ts @ replicate 8 0) (pl @ rest))"
    using fread_file_at [where xs = "bytes32 (word_of_nat (length pl) + 4) @ bytes32 ts
                                      @ replicate 8 0"
             and n = 16 and pre = "pre @ bytes32 HXAF" and rest = "pl @ rest"]
    by simp
  have conv: "int_of_size (length pl) = int (length pl)"
    "unat (word_of_nat (length pl) :: u32) = length pl" "length pl < 2 ^ 64"
    using assms by (simp_all add: int_of_size_small unat_len32)
  show ?thesis
    using assms
    by (simp add: extract_step_def hxaf_packet_def hxaf_header_def fread_file_at tags_distinct
          extract_hxaf_def sizeof_HXAFFrame_t_def rd Let_def conv ReadToBuffer_file_at
          buffer_cells_def)
qed

lemma extract_loop_next:
  "extract_step mx ist a fp st = Inr (fp', st', False) \<Longrightarrow> \<not> feof fp' \<Longrightarrow>
   extract_loop mx ist a fp st = extract_loop mx ist a fp' st'"
  by (subst extract_loop.simps) simp

lemma extract_loop_eof:
  "length rest < 4 \<Longrightarrow> extract_loop mx ist a (file_at pre rest) st = (Some TruncatedStream, st)"
  by (subst extract_loop.simps) (simp add: extract_step_eof file_at_def)

lemma extract_loop_hxvs:
  "extract_loop mx ist a (file_at pre (hxvs_packet w h @ rest)) st =
     extract_loop mx ist a (file_at (pre @ hxvs_packet w h) rest) st"
  by (rule extract_loop_next) (simp_all add: extract_step_hxvs)

lemma extract_loop_hxfi:
  "extract_loop mx ist a (file_at pre (bytes32 HXFI @ rest)) st = (None, st)"
  by (subst extract_loop.simps) (simp add: extract_step_hxfi)

lemma extract_loop_unknown:
  assumes "tag \<noteq> HXVS" "tag \<noteq> HXVF" "tag \<noteq> HXAF" "tag \<noteq> HXFI"
  shows "extract_loop mx ist a (file_at pre (bytes32 tag @ rest)) st =
           extract_loop mx ist a (file_at (pre @ bytes32 tag) rest) st"
  by (rule extract_loop_next) (simp_all add: extract_step_unknown assms)

lemma extract_loop_hxaf_skip:
  assumes "length pl + 4 < 2 ^ 32"
  shows "extract_loop mx ist False (file_at pre (hxaf_packet ts pl @ rest)) st =
           extract_loop mx ist False (file_at (pre @ hxaf_packet ts pl) rest) st"
  using assms by - (rule extract_loop_next, simp_all add: extract_step_hxaf_skip)

lemma extract_loop_hxaf_stream:
  assumes "0 < length pl" and "length pl < 2 ^ 31"
  shows "extract_loop mx ist True (file_at pre (hxaf_packet ts pl @ rest)) st =
     extract_loop mx ist True (file_at (pre @ hxaf_packet ts pl) rest)
       (let cells = store_bytes
                    (buffer_for (packet_buffer st) 0 (length pl) (packet_buffer_length st))
                    0 pl
        in st\<lparr>packet_buffer := Some cells, packet_buffer_length := length pl,
                 written := written st @
                   [\<lparr>data = take (length pl) cells, stream_index = Audio,
                     pts = rescale_ts (uint ts - audio_ts_initial ist)
                             (a_time_base mx)\<rparr>]\<rparr>)"
  using assms by - (rule extract_loop_next, simp_all add: extract_step_hxaf_stream Let_def)


lemma extract_loop_hxvf:
  assumes "0 < length pl" and "0 \<le> packet_buffer_offset st"
    and "packet_buffer_offset st + int (length pl) < 2 ^ 31"
  shows "extract_loop mx ist a (file_at pre (hxvf_packet ts pl @ rest)) st =
     (let off = packet_buffer_offset st;
          need = length pl + nat off;
          cells = store_bytes
                    (buffer_for (packet_buffer st) (nat off) need (packet_buffer_length st))
                    (nat off) pl
      in case nal_unit_type (Some cells) off of
           None \<Rightarrow> (Some InvalidRead, st)
         | Some t \<Rightarrow>
             if t = 7 \<or> t = 8 then
               extract_loop mx ist a (file_at (pre @ hxvf_packet ts pl) rest)
                 (st\<lparr>packet_buffer := Some cells, packet_buffer_length := need,
                     packet_buffer_offset := off + int (length pl)\<rparr>)
             else
               extract_loop mx ist a (file_at (pre @ hxvf_packet ts pl) rest)
                 (st\<lparr>packet_buffer := Some cells, packet_buffer_length := need,
                     packet_buffer_offset := 0,
                     written := written st @
                       [\<lparr>data = take need cells, stream_index = Video,
                         pts = rescale_ts (uint ts - video_ts_initial ist)
                                 (v_time_base mx)\<rparr>]\<rparr>))"
  using assms
  by (subst extract_loop.simps) (simp add: extract_step_hxvf Let_def split: option.split)

lemmas extract_loop_last =
  extract_loop_hxvs [where rest = "[]", simplified]
  extract_loop_hxvf [where rest = "[]", simplified]
  extract_loop_hxaf_skip [where rest = "[]", simplified]
  extract_loop_hxaf_stream [where rest = "[]", simplified]


lemma fseek_set0_file_at: "fseek_set0 (file_at pre rest) = Some (file_at [] (pre @ rest))"
  by (simp add: fseek_set0_def file_at_def)

lemma replicate_4_bytes32: "replicate 4 0 = bytes32 0"
  by (simp add: bytes32_def numeral_eq_Suc)

lemmas eval_infer =
  fopen_file_at infer_loop_hxvs infer_loop_hxvf infer_loop_hxaf infer_loop_hxfi
  infer_loop_last infer_loop_eof video_rate_update_def audio_rate_update_def infer_init_def
  Let_def

lemmas eval_extract =
  fopen_file_at extract_loop_hxvs extract_loop_hxvf extract_loop_hxaf_skip
  extract_loop_hxaf_stream extract_loop_hxfi extract_loop_last extract_loop_eof
  extract_init_def Let_def nal_unit_type_def store_bytes_def buffer_for_def malloc_def
  realloc_def fseek_set0_file_at

lemma unat_minus4: "unat (len - 4 :: u32) = (unat len + 2 ^ 32 - 4) mod 2 ^ 32"
proof -
  have "unat len < 2 ^ LENGTH(32)"
    by (rule unsigned_less)
  then have lt: "unat len < 4294967296"
    by simp
  have sub: "unat (len - 4) = (if 4 \<le> unat len then unat len - 4 else unat len + 4294967296 - 4)"
    by (simp add: unat_sub_if')
  show ?thesis
  proof (cases "4 \<le> unat len")
    case True
    then have "unat len + 4294967296 - 4 = (unat len - 4) + 4294967296"
      by simp
    then have "(unat len + 4294967296 - 4) mod 4294967296 = (unat len - 4) mod 4294967296"
      by (simp only: mod_add_self2)
    also have "\<dots> = unat len - 4"
      using lt by (intro mod_less) simp
    finally show ?thesis
      using True sub by simp
  next
    case False
    then have "(unat len + 4294967296 - 4) mod 4294967296 = unat len + 4294967296 - 4"
      by (intro mod_less) simp
    then show ?thesis
      using False sub by simp
  qed
qed

lemma unat_minus4_small:
  assumes "len < 4"
  shows "2 ^ 32 - 4 \<le> unat (len - 4 :: u32)"
proof -
  from assms have "unat len < 4"
    by (simp add: word_less_nat_alt)
  then show ?thesis
    by (simp add: unat_minus4)
qed

lemma ReadToBuffer_short_count:
  assumes "length rest < n"
  shows "\<exists>fp' buf blen. ReadToBuffer (file_at pre rest) dest off n sz = (length rest, fp', buf, blen)"
  using assms by (simp add: ReadToBuffer_def Let_def fread_def file_at_def)

lemma short_count_less:
  assumes "n < unat (len :: u32)"
  shows "(word_of_int (int_of_size n) :: u32) < len"
proof -
  have "unat len < 2 ^ LENGTH(32)"
    by (rule unsigned_less)
  with assms have n: "n < 2 ^ 32" by simp
  have "(word_of_int (int_of_size n) :: u32) = word_of_nat n"
    by (simp add: int_of_size_def)
  with assms n show ?thesis
    by (simp add: word_of_size_less)
qed

lemma fread_hxvf_fields:
  "fread (file_at pre (bytes32 len @ bytes32 ts @ replicate 4 0 @ rest)) 12 =
     (bytes32 len @ bytes32 ts @ replicate 4 0,
      file_at (pre @ bytes32 len @ bytes32 ts @ replicate 4 0) rest)"
  using fread_file_at [where xs = "bytes32 len @ bytes32 ts @ replicate 4 0" and n = 12
          and pre = pre and rest = rest]
  by simp

lemma fread_hxaf_fields:
  "fread (file_at pre (bytes32 len @ bytes32 ts @ replicate 8 0 @ rest)) 16 =
     (bytes32 len @ bytes32 ts @ replicate 8 0,
      file_at (pre @ bytes32 len @ bytes32 ts @ replicate 8 0) rest)"
  using fread_file_at [where xs = "bytes32 len @ bytes32 ts @ replicate 8 0" and n = 16
          and pre = pre and rest = rest]
  by simp

lemma extract_step_hxvf_header_short:
  assumes "length rest < unat len"
  shows "extract_step mx ist a (file_at pre (hxvf_header len ts @ rest)) st = Inl TruncatedStream"
proof -
  obtain fp' buf blen where
    rb: "ReadToBuffer (file_at (pre @ bytes32 HXVF @ bytes32 len @ bytes32 ts @ replicate 4 0) rest)
           (packet_buffer st) (size_of_int (packet_buffer_offset st)) (unat len)
           (packet_buffer_length st) = (length rest, fp', buf, blen)"
    using ReadToBuffer_short_count [OF assms] by blast
  show ?thesis
    using short_count_less [OF assms]
    by (simp add: extract_step_def hxvf_header_def fread_file_at tags_distinct
          extract_hxvf_def sizeof_HXVFFrame_t_def fread_hxvf_fields rb Let_def)
qed

lemma extract_step_hxaf_header_short:
  assumes "length rest < unat (len - 4)"
  shows "extract_step mx ist True (file_at pre (hxaf_header len ts @ rest)) st = Inl TruncatedStream"
proof -
  obtain fp' buf blen where
    rb: "ReadToBuffer (file_at (pre @ bytes32 HXAF @ bytes32 len @ bytes32 ts @ replicate 8 0) rest)
           (packet_buffer st) 0 (unat (len - 4))
           (packet_buffer_length st) = (length rest, fp', buf, blen)"
    using ReadToBuffer_short_count [OF assms] by blast
  show ?thesis
    using short_count_less [OF assms]
    by (simp add: extract_step_def hxaf_header_def fread_file_at tags_distinct
          extract_hxaf_def sizeof_HXAFFrame_t_def fread_hxaf_fields rb Let_def)
qed

lemma extract_step_hxaf_header_skip:
  "extract_step mx ist False (file_at pre (hxaf_header len ts @ rest)) st = 
     Inr (\<lparr>f_bytes = pre @ hxaf_header len ts @ rest,
           f_pos = length pre + 20 + unat (len - 4), f_eof = False\<rparr>, st, False)"
  apply (simp add: extract_step_def hxaf_header_def fread_file_at tags_distinct
          extract_hxaf_def sizeof_HXAFFrame_t_def fread_hxaf_fields Let_def)
  apply (simp add: file_at_def fseek_cur_uint_eq)
  done

lemma extract_loop_hxvf_header_short:
  assumes "length rest < unat len"
  shows "extract_loop mx ist a (file_at pre (hxvf_header len ts @ rest)) st =
           (Some TruncatedStream, st)"
  by (subst extract_loop.simps) (simp add: extract_step_hxvf_header_short [OF assms])

lemma extract_loop_hxaf_header_short:
  assumes "length rest < unat (len - 4)"
  shows "extract_loop mx ist a (file_at pre (hxaf_header len ts @ rest)) st =
           (Some TruncatedStream, st)"
proof (cases a)
  case True
  then show ?thesis
    by (subst extract_loop.simps) (simp add: extract_step_hxaf_header_short [OF assms])
next
  case False
  let ?fp = "\<lparr>f_bytes = pre @ hxaf_header len ts @ rest,
               f_pos = length pre + 20 + unat (len - 4), f_eof = False\<rparr>"
  have "extract_step mx ist False ?fp st = Inl TruncatedStream"
    using assms by (intro extract_step_eof) simp
  then have "extract_loop mx ist False ?fp st = (Some TruncatedStream, st)"
    by (subst extract_loop.simps) simp
  with False show ?thesis
    by (subst extract_loop.simps) (simp add: extract_step_hxaf_header_skip feof_def)
qed

lemma infer_loop_hxvf_header_short:
  assumes "length rest < unat len"
  shows "infer_loop (file_at pre (hxvf_header len ts @ rest)) st = Inl TruncatedStream"
proof -
  let ?fp = "\<lparr>f_bytes = pre @ hxvf_header len ts @ rest,
               f_pos = length pre + 16 + unat len, f_eof = False\<rparr>"
  have "infer_step ?fp (video_rate_update st ts) = Inl TruncatedStream"
    using assms by (intro infer_step_eof) simp
  then have "infer_loop ?fp (video_rate_update st ts) = Inl TruncatedStream"
    by (subst infer_loop.simps) simp
  then show ?thesis
    by (subst infer_loop.simps) (simp add: infer_step_hxvf_header feof_def)
qed

lemma infer_loop_hxaf_header_short:
  assumes "length rest < unat (len - 4)"
  shows "infer_loop (file_at pre (hxaf_header len ts @ rest)) st = Inl TruncatedStream"
proof -
  let ?fp = "\<lparr>f_bytes = pre @ hxaf_header len ts @ rest,
               f_pos = length pre + 20 + unat (len - 4), f_eof = False\<rparr>"
  have "infer_step ?fp (audio_rate_update st len ts) = Inl TruncatedStream"
    using assms by (intro infer_step_eof) simp
  then have "infer_loop ?fp (audio_rate_update st len ts) = Inl TruncatedStream"
    by (subst infer_loop.simps) simp
  then show ?thesis
    by (subst infer_loop.simps) (simp add: infer_step_hxaf_header feof_def)
qed


section \<open>Double-precision arithmetic: rounding errors\<close>

text \<open>The real number that a \<^verbatim>\<open>double\<close> stands for, for the statements below.\<close>

definition valof :: "double \<Rightarrow> real" where
  "valof x = (case x of Finite m e \<Rightarrow> real_of_int m * 2 powr real_of_int e | _ \<Rightarrow> 0)"

lemma valof_Finite [simp]: "valof (Finite m e) = real_of_int m * 2 powr real_of_int e"
  by (simp add: valof_def)

lemma ratio_scale:
  "real_of_int (a * 2 ^ nat k) / real_of_int (b * 2 ^ nat (- k))
     = (real_of_int a / real_of_int b) * 2 powr real_of_int k"
  by (cases "0 \<le> k") (simp_all add: powr_real_of_int field_simps)

lemma round_half_even_near:
  assumes "0 < b"
  shows "\<bar>real_of_int (round_half_even a b) - real_of_int a / real_of_int b\<bar> \<le> 1 / 2"
proof -
  define n where "n = a div b"
  define r where "r = a mod b"
  have r: "0 \<le> r" "r < b"
    using assms by (simp_all add: r_def)
  have "a = n * b + r"
    by (simp add: n_def r_def)
  then have "real_of_int a = real_of_int n * real_of_int b + real_of_int r"
    by (metis of_int_add of_int_mult)
  then have q: "real_of_int a / real_of_int b = real_of_int n + real_of_int r / real_of_int b"
    using assms by (simp add: field_simps)
  have low: "2 * r \<le> b \<Longrightarrow> real_of_int r / real_of_int b \<le> 1 / 2"
    using assms by (simp add: field_simps)
  have high: "b \<le> 2 * r \<Longrightarrow> 1 / 2 \<le> real_of_int r / real_of_int b"
    using assms by (simp add: field_simps)
  have nonneg: "0 \<le> real_of_int r / real_of_int b" "real_of_int r / real_of_int b < 1"
    using assms r by simp_all
  consider "2 * r < b" | "b < 2 * r" | "2 * r = b"
    by linarith
  then show ?thesis
  proof cases
    case 1
    then have "round_half_even a b = n"
      by (simp add: round_half_even_def n_def r_def Let_def)
    with low 1 nonneg q show ?thesis by simp
  next
    case 2
    then have "round_half_even a b = n + 1"
      by (simp add: round_half_even_def n_def r_def Let_def)
    with high 2 nonneg q show ?thesis by simp
  next
    case 3
    then have "round_half_even a b = n \<or> round_half_even a b = n + 1"
      by (simp add: round_half_even_def n_def r_def Let_def)
    with low high 3 nonneg q show ?thesis by auto
  qed
qed

lemma bitlen_powr:
  assumes "0 < a"
  shows "2 powr (real_of_int (bitlen a) - 1) \<le> real_of_int a"
    and "real_of_int a < 2 powr real_of_int (bitlen a)"
proof -
  from assms have pos: "1 \<le> bitlen a"
    by (simp add: bitlen_alt_def)
  from bitlen_bounds [OF assms]
  have "real_of_int (2 ^ nat (bitlen a - 1)) \<le> real_of_int a"
    and "real_of_int a < real_of_int (2 ^ nat (bitlen a))"
    by (simp_all only: of_int_le_iff of_int_less_iff)
  moreover have "2 powr (real_of_int (bitlen a) - 1) = real_of_int (2 ^ nat (bitlen a - 1))"
    using pos powr_real_of_int [of 2 "bitlen a - 1"] by simp
  moreover have "2 powr real_of_int (bitlen a) = real_of_int (2 ^ nat (bitlen a))"
    using pos powr_real_of_int [of 2 "bitlen a"] by simp
  ultimately show "2 powr (real_of_int (bitlen a) - 1) \<le> real_of_int a"
    and "real_of_int a < 2 powr real_of_int (bitlen a)"
    by simp_all
qed

text \<open>The exponent chosen for a quotient puts the significand between \<open>2 ^ 52\<close> and \<open>2 ^ 53\<close>.\<close>

lemma quot_exponent_bounds:
  assumes "0 < a" and "0 < b"
  shows "2 powr real_of_int (quot_exponent a b + 52) \<le> real_of_int a / real_of_int b"
    and "real_of_int a / real_of_int b < 2 powr real_of_int (quot_exponent a b + 53)"
proof -
  define k where "k = bitlen a - bitlen b"
  define \<rho> where "\<rho> = real_of_int a / real_of_int b"
  have \<rho>: "0 < \<rho>"
    using assms by (simp add: \<rho>_def)
  have up: "\<rho> < 2 powr real_of_int (k + 1)"
  proof -
    have "real_of_int a < 2 powr real_of_int (bitlen a)"
      and "2 powr (real_of_int (bitlen b) - 1) \<le> real_of_int b"
      using bitlen_powr assms by simp_all
    then have "\<rho> < 2 powr real_of_int (bitlen a) / 2 powr (real_of_int (bitlen b) - 1)"
      unfolding \<rho>_def using assms
      by (intro frac_less) simp_all
    also have "\<dots> = 2 powr real_of_int (k + 1)"
      by (simp add: k_def powr_diff [symmetric] algebra_simps)
    finally show ?thesis .
  qed
  have low: "2 powr real_of_int (k - 1) < \<rho>"
  proof -
    have "2 powr (real_of_int (bitlen a) - 1) \<le> real_of_int a"
      and "real_of_int b < 2 powr real_of_int (bitlen b)"
      using bitlen_powr assms by simp_all
    then have "2 powr (real_of_int (bitlen a) - 1) / 2 powr real_of_int (bitlen b) < \<rho>"
      unfolding \<rho>_def using assms
      by (intro frac_less2) simp_all
    moreover have "2 powr (real_of_int (bitlen a) - 1) / 2 powr real_of_int (bitlen b)
                     = 2 powr real_of_int (k - 1)"
      by (simp add: k_def powr_diff [symmetric] algebra_simps)
    ultimately show ?thesis by simp
  qed
  have test: "b * 2 ^ nat k \<le> a * 2 ^ nat (- k) \<longleftrightarrow> 2 powr real_of_int k \<le> \<rho>"
  proof -
    have "0 < b * 2 ^ nat k"
      using assms by simp
    then have "b * 2 ^ nat k \<le> a * 2 ^ nat (- k)
                 \<longleftrightarrow> 1 \<le> real_of_int (a * 2 ^ nat (- k)) / real_of_int (b * 2 ^ nat k)"
      by (simp only: le_divide_eq_1_pos of_int_0_less_iff of_int_le_iff)
    also have "real_of_int (a * 2 ^ nat (- k)) / real_of_int (b * 2 ^ nat k)
                 = \<rho> * 2 powr real_of_int (- k)"
      using ratio_scale [of a "- k" b] by (simp add: \<rho>_def)
    also have "1 \<le> \<rho> * 2 powr real_of_int (- k) \<longleftrightarrow> 2 powr real_of_int k \<le> \<rho>"
      by (simp add: powr_minus field_simps)
    finally show ?thesis .
  qed
  have e: "quot_exponent a b = (if 2 powr real_of_int k \<le> \<rho> then k - 52 else k - 53)"
    using test by (simp add: quot_exponent_def k_def Let_def)
  show "2 powr real_of_int (quot_exponent a b + 52) \<le> real_of_int a / real_of_int b"
    using low e by (auto simp: \<rho>_def algebra_simps)
  show "real_of_int a / real_of_int b < 2 powr real_of_int (quot_exponent a b + 53)"
    using up e by (auto simp: \<rho>_def algebra_simps)
qed



text \<open>
  In the normal range, the rounded quotient differs from the quotient by at most the
  fraction \<open>2 ^ - 53\<close> of it.
\<close>

lemma rnd_quot_near:
  assumes "p \<noteq> 0" and "q \<noteq> 0"
    and "2 powr (- 1022) \<le> \<bar>real_of_int p / real_of_int q\<bar>"
    and "\<bar>real_of_int p / real_of_int q\<bar> < 2 powr 1023"
  shows "\<exists>m e. rnd_quot p q = Finite m e
           \<and> \<bar>real_of_int m * 2 powr real_of_int e - real_of_int p / real_of_int q\<bar>
                \<le> \<bar>real_of_int p / real_of_int q\<bar> * 2 powr (- 53)"
proof -
  define a where "a = \<bar>p\<bar>"
  define b where "b = \<bar>q\<bar>"
  define \<rho> where "\<rho> = real_of_int a / real_of_int b"
  define e where "e = quot_exponent a b"
  define m where "m = round_half_even (a * 2 ^ nat (- e)) (b * 2 ^ nat e)"
  define s where "s = sgn p * sgn q"
  have pos: "0 < a" "0 < b"
    using assms(1,2) by (simp_all add: a_def b_def)
  have \<rho>: "\<rho> = \<bar>real_of_int p / real_of_int q\<bar>"
    by (simp add: \<rho>_def a_def b_def)
  have low: "2 powr real_of_int (e + 52) \<le> \<rho>" and up: "\<rho> < 2 powr real_of_int (e + 53)"
    using quot_exponent_bounds [OF pos] by (simp_all add: e_def \<rho>_def)
  have "(2 :: real) powr (- 1022) < 2 powr real_of_int (e + 53)"
    using assms(3) up \<rho> by linarith
  then have "- 1022 < real_of_int (e + 53)"
    by (simp only: powr_less_cancel_iff [of 2] one_less_numeral_iff semiring_norm)
  then have e_low: "- 1074 \<le> e"
    by linarith
  have "(2 :: real) powr real_of_int (e + 52) < 2 powr 1023"
    using assms(4) low \<rho> by linarith
  then have "real_of_int (e + 52) < 1023"
    by (simp only: powr_less_cancel_iff [of 2] one_less_numeral_iff semiring_norm)
  then have e_up: "e \<le> 970"
    by linarith
  have val: "rnd_quot p q = Finite (s * m) e"
    using assms(1) e_low e_up
    by (simp add: rnd_quot_def rnd_mag_def a_def [symmetric] b_def [symmetric] e_def [symmetric]
          m_def [symmetric] s_def Let_def max_def)
  have "0 < b * 2 ^ nat e"
    using pos by simp
  from round_half_even_near [OF this, of "a * 2 ^ nat (- e)"]
  have "\<bar>real_of_int m - \<rho> * 2 powr real_of_int (- e)\<bar> \<le> 1 / 2"
    using ratio_scale [of a "- e" b] by (simp add: m_def \<rho>_def)
  then have "\<bar>real_of_int m - \<rho> * 2 powr real_of_int (- e)\<bar> * 2 powr real_of_int e
               \<le> 1 / 2 * 2 powr real_of_int e"
    by (intro mult_right_mono) simp_all
  moreover have "\<bar>real_of_int m - \<rho> * 2 powr real_of_int (- e)\<bar> * 2 powr real_of_int e
                  = \<bar>real_of_int m * 2 powr real_of_int e - \<rho>\<bar>"
  proof -
    have "\<bar>real_of_int m - \<rho> * 2 powr real_of_int (- e)\<bar> * 2 powr real_of_int e
            = \<bar>(real_of_int m - \<rho> * 2 powr real_of_int (- e)) * 2 powr real_of_int e\<bar>"
      by (simp add: abs_mult)
    also have "(real_of_int m - \<rho> * 2 powr real_of_int (- e)) * 2 powr real_of_int e
                 = real_of_int m * 2 powr real_of_int e - \<rho>"
      by (simp add: algebra_simps powr_add [symmetric])
    finally show ?thesis .
  qed
  moreover have "1 / 2 * 2 powr real_of_int e = 2 powr real_of_int (e + 52) * 2 powr (- 53)"
  proof -
    have "2 powr real_of_int (e + 52) * 2 powr (- 53) = 2 powr (real_of_int e + (- 1))"
      by (simp add: powr_add [symmetric])
    also have "\<dots> = 2 powr real_of_int e * 2 powr (- 1)"
      by (simp only: powr_add)
    also have "(2 :: real) powr (- 1) = 1 / 2"
      by (simp add: powr_minus_divide)
    finally show ?thesis by simp
  qed
  moreover have "2 powr real_of_int (e + 52) * 2 powr (- 53) \<le> \<rho> * 2 powr (- 53)"
    using low by (intro mult_right_mono) simp_all
  ultimately have near: "\<bar>real_of_int m * 2 powr real_of_int e - \<rho>\<bar> \<le> \<rho> * 2 powr (- 53)"
    by linarith
  have sq: "real_of_int p / real_of_int q = real_of_int s * \<rho>"
    using assms(1,2) 
    by (simp add: s_def \<rho>_def a_def b_def sgn_if field_simps)
  have sa: "\<bar>real_of_int s\<bar> = 1"
    using assms(1,2) by (simp add: s_def sgn_if)
  have "\<bar>real_of_int (s * m) * 2 powr real_of_int e - real_of_int p / real_of_int q\<bar>
          = \<bar>real_of_int s * (real_of_int m * 2 powr real_of_int e - \<rho>)\<bar>"
    by (simp add: sq algebra_simps)
  also have "\<dots> = \<bar>real_of_int m * 2 powr real_of_int e - \<rho>\<bar>"
    by (simp only: abs_mult sa mult_1)
  finally show ?thesis
    using val near \<rho> by auto
qed


text \<open>A quotient that is an integer below \<open>2 ^ 53\<close> in magnitude is not changed.\<close>

lemma round_half_even_1 [simp]: "round_half_even a 1 = a"
  by (simp add: round_half_even_def)

lemma round_half_even_multiple:
  assumes "0 < b"
  shows "round_half_even (n * b) b = n"
  using assms by (simp add: round_half_even_def)

lemma rnd_quot_int:
  assumes "q \<noteq> 0" and "p = n * q" and "\<bar>n\<bar> < 2 ^ 53"
  shows "\<exists>m e. rnd_quot p q = Finite m e \<and> real_of_int m * 2 powr real_of_int e = real_of_int n"
proof (cases "n = 0")
  case True
  then show ?thesis
    using assms(2) by (simp add: rnd_quot_def)
next
  case False
  define a where "a = \<bar>p\<bar>"
  define b where "b = \<bar>q\<bar>"
  define e where "e = quot_exponent a b"
  have p: "p \<noteq> 0"
    using False assms(1,2) by simp
  have a: "a = \<bar>n\<bar> * b"
    by (simp add: a_def b_def assms(2) abs_mult)
  have pos: "0 < a" "0 < b"
    using p assms(1) by (simp_all add: a_def b_def)
  have ratio: "real_of_int a / real_of_int b = real_of_int \<bar>n\<bar>"
    using pos by (simp add: a)
  have low: "2 powr real_of_int (e + 52) \<le> real_of_int \<bar>n\<bar>"
    and up: "real_of_int \<bar>n\<bar> < 2 powr real_of_int (e + 53)"
    using quot_exponent_bounds [OF pos] by (simp_all only: e_def ratio)
  have "real_of_int \<bar>n\<bar> < real_of_int (2 ^ 53)"
    using assms(3) by (simp only: of_int_less_iff)
  then have "real_of_int \<bar>n\<bar> < 2 powr 53"
    by simp
  with low have "(2 :: real) powr real_of_int (e + 52) < 2 powr 53"
    by linarith
  then have "real_of_int (e + 52) < 53"
    by (simp only: powr_less_cancel_iff [of 2] one_less_numeral_iff semiring_norm)
  then have e_up: "e \<le> 0"
    by linarith
  have "1 \<le> \<bar>n\<bar>"
    using False by simp
  then have "real_of_int 1 \<le> real_of_int \<bar>n\<bar>"
    by (simp only: of_int_le_iff)
  with up have "(2 :: real) powr 0 < 2 powr real_of_int (e + 53)"
    by simp
  then have "0 < real_of_int (e + 53)"
    by (simp only: powr_less_cancel_iff [of 2] one_less_numeral_iff semiring_norm)
  then have e_low: "- 52 \<le> e"
    by linarith
  have "a * 2 ^ nat (- e) = (\<bar>n\<bar> * 2 ^ nat (- e)) * b"
    by (simp add: a)
  moreover have "b * 2 ^ nat e = b"
    using e_up by simp
  ultimately
  have "round_half_even (a * 2 ^ nat (- e)) (b * 2 ^ nat e) = \<bar>n\<bar> * 2 ^ nat (- e)"
    using round_half_even_multiple [OF pos(2), of "\<bar>n\<bar> * 2 ^ nat (- e)"] by (simp only:)
  then have val: "rnd_quot p q = Finite (sgn p * sgn q * (\<bar>n\<bar> * 2 ^ nat (- e))) e"
    using p e_low e_up
    by (simp add: rnd_quot_def rnd_mag_def a_def [symmetric] b_def [symmetric] e_def [symmetric]
          Let_def max_def)
  have "sgn q * sgn q = 1"
    using assms(1) by (simp add: sgn_if)
  moreover have "sgn p * sgn q = sgn n * (sgn q * sgn q)"
    by (simp only: assms(2) sgn_mult mult.assoc)
  ultimately have s: "sgn p * sgn q = sgn n"
    by simp
  have "real_of_int (2 ^ nat (- e)) * 2 powr real_of_int e = 1"
    using e_up by (simp add: powr_real_of_int)
  then have "real_of_int (sgn n * (\<bar>n\<bar> * 2 ^ nat (- e))) * 2 powr real_of_int e
               = real_of_int (sgn n * \<bar>n\<bar>)"
    by (simp add: algebra_simps)
  also have "sgn n * \<bar>n\<bar> = n"
    by (simp add: mult_sgn_abs)
  finally show ?thesis
    using val s by simp
qed

lemma double_of_int_exact:
  assumes "\<bar>n\<bar> < 2 ^ 53"
  shows "\<exists>m e. double_of_int n = Finite m e \<and> real_of_int m * 2 powr real_of_int e = real_of_int n"
  unfolding double_of_int_def using rnd_quot_int [of 1 n n] assms by simp

lemma ddiv_near:
  assumes "m \<noteq> 0" and "n \<noteq> 0"
    and "2 powr (- 1022) \<le> \<bar>valof (Finite m e) / valof (Finite n f)\<bar>"
    and "\<bar>valof (Finite m e) / valof (Finite n f)\<bar> < 2 powr 1023"
  shows "\<exists>m' e'. ddiv (Finite m e) (Finite n f) = Finite m' e'
           \<and> \<bar>valof (Finite m' e') - valof (Finite m e) / valof (Finite n f)\<bar>
                \<le> \<bar>valof (Finite m e) / valof (Finite n f)\<bar> * 2 powr (- 53)"
proof -
  define P where "P = m * 2 ^ nat (e - f)"
  define Q where "Q = n * 2 ^ nat (f - e)"
  have nz: "P \<noteq> 0" "Q \<noteq> 0"
    using assms(1,2) by (simp_all add: P_def Q_def)
  have "real_of_int P / real_of_int Q
          = (real_of_int m / real_of_int n) * 2 powr real_of_int (e - f)"
    using ratio_scale [of m "e - f" n] by (simp add: P_def Q_def)
  also have "\<dots> = valof (Finite m e) / valof (Finite n f)"
    by (simp add: powr_diff)
  finally have r: "real_of_int P / real_of_int Q = valof (Finite m e) / valof (Finite n f)" .
  have "ddiv (Finite m e) (Finite n f) = rnd_quot P Q"
    using assms(2) by (simp add: P_def Q_def)
  with rnd_quot_near [OF nz] assms(3,4) r show ?thesis
    by simp
qed

lemma dmul_near:
  assumes "m \<noteq> 0" and "n \<noteq> 0"
    and "2 powr (- 1022) \<le> \<bar>valof (Finite m e) * valof (Finite n f)\<bar>"
    and "\<bar>valof (Finite m e) * valof (Finite n f)\<bar> < 2 powr 1023"
  shows "\<exists>m' e'. dmul (Finite m e) (Finite n f) = Finite m' e'
           \<and> \<bar>valof (Finite m' e') - valof (Finite m e) * valof (Finite n f)\<bar>
                \<le> \<bar>valof (Finite m e) * valof (Finite n f)\<bar> * 2 powr (- 53)"
proof -
  define P where "P = m * n * 2 ^ nat (e + f)"
  define Q :: int where "Q = 2 ^ nat (- (e + f))"
  have nz: "P \<noteq> 0" "Q \<noteq> 0"
    using assms(1,2) by (simp_all add: P_def Q_def)
  have "real_of_int P / real_of_int Q
          = (real_of_int (m * n) / real_of_int 1) * 2 powr real_of_int (e + f)"
    using ratio_scale [of "m * n" "e + f" 1] by (simp add: P_def Q_def)
  also have "\<dots> = valof (Finite m e) * valof (Finite n f)"
    by (simp add: powr_add)
  finally have r: "real_of_int P / real_of_int Q = valof (Finite m e) * valof (Finite n f)" .
  have "dmul (Finite m e) (Finite n f) = rnd_quot P Q"
    by (simp add: P_def Q_def)
  with rnd_quot_near [OF nz] assms(3,4) r show ?thesis
    by simp
qed

text \<open>
  \<^verbatim>\<open>round\<close> gives an integer at most one half away, and the conversion gives that integer
  when it fits in an \<^verbatim>\<open>int\<close>.
\<close>

lemma c_round_near:
  "\<exists>k. valof (c_round (Finite m e)) = real_of_int k
       \<and> \<bar>real_of_int k - valof (Finite m e)\<bar> \<le> 1 / 2
       \<and> int_of_double (c_round (Finite m e))
           = (if - (2 ^ 31) \<le> k \<and> k < 2 ^ 31 then k else - (2 ^ 31))"
proof (cases "0 \<le> e")
  case True
  have pw: "2 powr real_of_int e = real_of_int (2 ^ nat e)"
    using True by (simp add: powr_real_of_int)
  have v: "valof (Finite m e) = real_of_int (m * 2 ^ nat e)"
    by (simp only: valof_Finite pw of_int_mult)
  have cr: "c_round (Finite m e) = Finite m e"
    using True by simp
  have "sgn m * (\<bar>m\<bar> * 2 ^ nat e div 2 ^ nat (- e)) = m * 2 ^ nat e"
    using True by (simp add: mult_sgn_abs mult.assoc [symmetric])
  then have i: "int_of_double (Finite m e)
                 = (if - (2 ^ 31) \<le> m * 2 ^ nat e \<and> m * 2 ^ nat e < 2 ^ 31 then m * 2 ^ nat e
                    else - (2 ^ 31))"
    by (simp add: Let_def)
  show ?thesis
    unfolding cr
  proof (intro exI conjI)
    show "valof (Finite m e) = real_of_int (m * 2 ^ nat e)"
      by (rule v)
    show "\<bar>real_of_int (m * 2 ^ nat e) - valof (Finite m e)\<bar> \<le> 1 / 2"
      unfolding v by simp
    show "int_of_double (Finite m e)
            = (if - (2 ^ 31) \<le> m * 2 ^ nat e \<and> m * 2 ^ nat e < 2 ^ 31 then m * 2 ^ nat e
               else - (2 ^ 31))"
      by (rule i)
  qed
next
  case False
  define K :: int where "K = 2 ^ nat (- e)"
  define n where "n = (2 * \<bar>m\<bar> + K) div (2 * K)"
  define r where "r = (2 * \<bar>m\<bar> + K) mod (2 * K)"
  define k where "k = sgn m * n"
  have K: "0 < K"
    by (simp add: K_def)
  have r: "0 \<le> r" "r < 2 * K"
    using K by (simp_all add: r_def)
  have cr: "c_round (Finite m e) = Finite k 0"
    using False by (simp add: k_def n_def K_def)
  have v: "valof (Finite m e) = real_of_int m / real_of_int K"
    using False by (simp add: K_def powr_real_of_int divide_inverse)
  have "2 * \<bar>m\<bar> + K = n * (2 * K) + r"
    by (simp only: n_def r_def div_mult_mod_eq)
  then have "real_of_int (2 * \<bar>m\<bar> + K) = real_of_int (n * (2 * K) + r)"
    by simp
  then have "real_of_int n = real_of_int \<bar>m\<bar> / real_of_int K + 1 / 2
                               - real_of_int r / (2 * real_of_int K)"
    using K by (simp add: field_simps)
  moreover have "0 \<le> real_of_int r / (2 * real_of_int K)" "real_of_int r / (2 * real_of_int K) < 1"
    using r K by simp_all
  ultimately have n: "\<bar>real_of_int n - real_of_int \<bar>m\<bar> / real_of_int K\<bar> \<le> 1 / 2"
    by linarith
  have "real_of_int k - real_of_int m / real_of_int K
          = real_of_int (sgn m) * (real_of_int n - real_of_int \<bar>m\<bar> / real_of_int K)"
    by (simp add: k_def algebra_simps sgn_if)
  then have "\<bar>real_of_int k - real_of_int m / real_of_int K\<bar>
               = \<bar>real_of_int (sgn m)\<bar> * \<bar>real_of_int n - real_of_int \<bar>m\<bar> / real_of_int K\<bar>"
    by (simp only: abs_mult)
  also have "\<dots> \<le> 1 * \<bar>real_of_int n - real_of_int \<bar>m\<bar> / real_of_int K\<bar>"
    by (intro mult_right_mono) (simp_all add: sgn_if)
  finally have near: "\<bar>real_of_int k - valof (Finite m e)\<bar> \<le> 1 / 2"
    using n v by simp
  have "int_of_double (Finite k 0) = (if - (2 ^ 31) \<le> k \<and> k < 2 ^ 31 then k else - (2 ^ 31))"
    by (simp add: Let_def mult_sgn_abs)
  with cr near show ?thesis
    by (intro exI [of _ k]) simp
qed


lemma normal_range:
  assumes "1 / 2 ^ 100 \<le> v" and "v < 2 ^ 100"
  shows "2 powr (- 1022) \<le> (v :: real)" and "v < 2 powr 1023"
proof -
  have "(2 :: real) powr (- 1022) \<le> 2 powr (- 100)"
    by simp
  also have "(2 :: real) powr (- 100) = 1 / 2 ^ 100"
    by (simp add: powr_minus_divide)
  finally show "2 powr (- 1022) \<le> v"
    using assms(1) by linarith
  have "(2 :: real) powr 100 \<le> 2 powr 1023"
    by (simp del: powr_numeral)
  moreover have "(2 :: real) powr 100 = 2 ^ 100"
    by simp
  ultimately show "v < 2 powr 1023"
    using assms(2) by linarith
qed

lemma quotient_error:
  assumes "0 < D" and "0 < d" and "\<bar>D - d\<bar> \<le> c * d"
  shows "\<bar>R / d - R / D\<bar> \<le> \<bar>R / D\<bar> * (c :: real)"
proof -
  have "R / d - R / D = (R / D) * ((D - d) / d)"
    using assms(1,2) by (simp add: field_simps)
  then have "\<bar>R / d - R / D\<bar> = \<bar>R / D\<bar> * (\<bar>D - d\<bar> / d)"
    using assms(2) by (simp add: abs_mult)
  moreover have "\<bar>D - d\<bar> / d \<le> c"
    using assms(2,3) by (simp add: field_simps)
  then have "\<bar>R / D\<bar> * (\<bar>D - d\<bar> / d) \<le> \<bar>R / D\<bar> * c"
    by (intro mult_left_mono) simp_all
  ultimately show ?thesis
    by (simp only:)
qed

lemma abs_diff_bounds:
  assumes "\<bar>x - a\<bar> \<le> (r :: real)"
  shows "a - r \<le> x" and "x \<le> a + r"
  using assms by linarith+

lemma Finite_nonzero:
  assumes "real_of_int m * 2 powr real_of_int e \<noteq> 0"
  shows "m \<noteq> 0"
  using assms by auto

text \<open>
  The result of the rescaling, for a time base with positive components: the roundings of
  the three operations move the quotient by less than \<open>2 ^ - 20\<close> as long as it fits in an
  \<^verbatim>\<open>int\<close>, and \<^verbatim>\<open>round\<close> by at most one half.
\<close>

lemma rescale_ts_near:
  assumes "0 < num" and "num < 2 ^ 31" and "0 < den" and "den < 2 ^ 31"
    and "\<bar>rel\<bar> < 2 ^ 53"
    and "\<bar>rel\<bar> * den \<le> 2147483647 * (1000 * num)"
  shows "\<bar>real_of_int (rescale_ts rel (num, den))
           - real_of_int (rel * den) / real_of_int (1000 * num)\<bar> \<le> 1 / 2 + 1 / 2 ^ 20"
proof -
  define T where "T = real_of_int num / real_of_int den"
  define D where "D = 1000 * T"
  define R where "R = real_of_int rel"
  define E where "E = R / D"
  have u: "(2 :: real) powr (- 53) = 1 / 2 ^ 53"
    by (simp add: powr_minus_divide)
  have num: "1 \<le> real_of_int num" "real_of_int num \<le> 2 ^ 31"
    and den: "1 \<le> real_of_int den" "real_of_int den \<le> 2 ^ 31"
    using assms(1-4) by simp_all
  have T_low: "1 / 2 ^ 31 \<le> T"
    unfolding T_def using num den by (intro frac_le) simp_all
  have "T \<le> 2 ^ 31 / 1"
    unfolding T_def using num den by (intro frac_le) simp_all
  then have T_up: "T \<le> 2 ^ 31"
    by simp
  have E: "E = real_of_int (rel * den) / real_of_int (1000 * num)"
    using assms(1,3) by (simp add: E_def D_def T_def R_def field_simps)
  have "real_of_int (\<bar>rel\<bar> * den) \<le> real_of_int (2147483647 * (1000 * num))"
    using assms(6) by (simp only: of_int_le_iff)
  then have "\<bar>R\<bar> * real_of_int den \<le> 2147483647 * (1000 * real_of_int num)"
    by (simp add: R_def)
  then have E_up: "\<bar>E\<bar> \<le> 2147483647"
    using assms(1,3) by (simp add: E_def D_def T_def field_simps abs_mult)

  obtain mn en where dn: "double_of_int num = Finite mn en"
    and vn: "real_of_int mn * 2 powr real_of_int en = real_of_int num"
    using double_of_int_exact [of num] assms(1,2) by auto
  obtain md ed where dd: "double_of_int den = Finite md ed"
    and vd: "real_of_int md * 2 powr real_of_int ed = real_of_int den"
    using double_of_int_exact [of den] assms(3,4) by auto
  obtain mr er where dr: "double_of_int rel = Finite mr er"
    and vr: "real_of_int mr * 2 powr real_of_int er = R"
    using double_of_int_exact [of rel] assms(5) by (auto simp: R_def)
  have nz: "mn \<noteq> 0" "md \<noteq> 0"
    using vn vd num den by (auto intro!: Finite_nonzero)

  have Tv: "valof (Finite mn en) / valof (Finite md ed) = T"
    by (simp only: valof_Finite vn vd T_def)
  have "1 / 2 ^ 100 \<le> \<bar>T\<bar>" "\<bar>T\<bar> < 2 ^ 100"
    using T_low T_up by simp_all
  from ddiv_near [OF nz, of en ed, unfolded Tv, OF normal_range [OF this]]
  obtain mq eq where q: "ddiv (Finite mn en) (Finite md ed) = Finite mq eq"
    and "\<bar>valof (Finite mq eq) - T\<bar> \<le> \<bar>T\<bar> * 2 powr (- 53)"
    by blast
  define t where "t = valof (Finite mq eq)"
  have T_pos: "0 < T"
    using T_low by (simp?; linarith?)
  have "\<bar>t - T\<bar> \<le> T * (1 / 2 ^ 53)"
    using \<open>\<bar>valof (Finite mq eq) - T\<bar> \<le> \<bar>T\<bar> * 2 powr (- 53)\<close> T_pos
    by (simp only: t_def u abs_of_pos)
  note t = abs_diff_bounds [OF this]
  have t_pos: "0 < t"
    using t T_pos by (simp?; linarith?)
  have mq: "mq \<noteq> 0"
    using t_pos by (auto simp: t_def)

  have tv: "valof (Finite 1000 0) * valof (Finite mq eq) = 1000 * t"
    by (simp add: t_def)
  have "1 / 2 ^ 100 \<le> 1000 * t" "1000 * t < 2 ^ 100"
    using t T_low T_up by (simp?; linarith?)+
  then have "1 / 2 ^ 100 \<le> \<bar>1000 * t\<bar>" "\<bar>1000 * t\<bar> < 2 ^ 100"
    using t_pos by (simp_all only: abs_of_pos mult_pos_pos zero_less_numeral)
  from dmul_near [of 1000 mq 0 eq, unfolded tv, OF _ mq normal_range [OF this]]
  obtain mp ep where p: "dmul (Finite 1000 0) (Finite mq eq) = Finite mp ep"
    and "\<bar>valof (Finite mp ep) - 1000 * t\<bar> \<le> \<bar>1000 * t\<bar> * 2 powr (- 53)"
    by auto
  define d where "d = valof (Finite mp ep)"
  have "0 < 1000 * t"
    using t_pos by simp
  then have "\<bar>d - 1000 * t\<bar> \<le> 1000 * t * (1 / 2 ^ 53)"
    using \<open>\<bar>valof (Finite mp ep) - 1000 * t\<bar> \<le> \<bar>1000 * t\<bar> * 2 powr (- 53)\<close>
    by (simp only: d_def u abs_of_pos)
  note d = abs_diff_bounds [OF this]
  have d_pos: "0 < d"
    using d t_pos by (simp?; linarith?)
  have mp: "mp \<noteq> 0"
    using d_pos by (auto simp: d_def)
  have D_pos: "0 < D"
    using T_pos by (simp add: D_def)
  have "D - d \<le> 5 / 2 ^ 54 * d"
    using t(1) d(1) T_pos unfolding D_def by (simp?; linarith?)
  moreover have "d - D \<le> 5 / 2 ^ 54 * d"
    using t(2) d(2) T_pos unfolding D_def by (simp?; linarith?)
  ultimately have dD: "\<bar>D - d\<bar> \<le> 5 / 2 ^ 54 * d"
    by linarith
  have d_low: "1 / 2 ^ 22 \<le> d" and d_up: "d \<le> 2 ^ 42"
    using t d T_low T_up by (simp?; linarith?)+

  have res: "rescale_ts rel (num, den)
               = int_of_double (c_round (ddiv (Finite mr er) (Finite mp ep)))"
    by (simp only: rescale_ts_def av_q2d_def fst_conv snd_conv dn dd dr q p)
  show ?thesis
  proof (cases "rel = 0")
    case True
    then have "mr = 0"
      using vr by (simp add: R_def)
    then have "ddiv (Finite mr er) (Finite mp ep) = Finite 0 0"
      using mp by (simp add: rnd_quot_def)
    then show ?thesis
      using True res by simp
  next
    case False
    then have "1 \<le> \<bar>rel\<bar>" "\<bar>rel\<bar> \<le> 2 ^ 53"
      using assms(5) by simp_all
    then have "real_of_int 1 \<le> real_of_int \<bar>rel\<bar>" "real_of_int \<bar>rel\<bar> \<le> real_of_int (2 ^ 53)"
      by (simp_all only: of_int_le_iff)
    then have R: "1 \<le> \<bar>R\<bar>" "\<bar>R\<bar> \<le> 2 ^ 53"
      by (simp_all add: R_def)
    have mr: "mr \<noteq> 0"
      using vr R by (auto intro!: Finite_nonzero)
    have yv: "valof (Finite mr er) / valof (Finite mp ep) = R / d"
      by (simp only: valof_Finite vr d_def)
    have "1 / 2 ^ 42 \<le> \<bar>R\<bar> / d"
      using R d_pos d_up by (intro frac_le) simp_all
    moreover have "\<bar>R\<bar> / d \<le> 2 ^ 53 / (1 / 2 ^ 22)"
      using R d_pos d_low by (intro frac_le) simp_all
    ultimately have "1 / 2 ^ 100 \<le> \<bar>R / d\<bar>" "\<bar>R / d\<bar> < 2 ^ 100"
      using d_pos by simp_all
    from ddiv_near [OF mr mp, of er ep, unfolded yv, OF normal_range [OF this]]
    obtain mx ex where x: "ddiv (Finite mr er) (Finite mp ep) = Finite mx ex"
      and "\<bar>valof (Finite mx ex) - R / d\<bar> \<le> \<bar>R / d\<bar> * 2 powr (- 53)"
      by blast
    define xv where "xv = valof (Finite mx ex)"
    have xy: "\<bar>xv - R / d\<bar> \<le> \<bar>R / d\<bar> * (1 / 2 ^ 53)"
      using \<open>\<bar>valof (Finite mx ex) - R / d\<bar> \<le> \<bar>R / d\<bar> * 2 powr (- 53)\<close>
      by (simp only: xv_def u)
    have yE: "\<bar>R / d - E\<bar> \<le> \<bar>E\<bar> * (5 / 2 ^ 54)"
      unfolding E_def by (rule quotient_error [OF D_pos d_pos dD])
    define ay where "ay = \<bar>R / d\<bar>"
    define aE where "aE = \<bar>E\<bar>"
    define axy where "axy = \<bar>xv - R / d\<bar>"
    define ayE where "ayE = \<bar>R / d - E\<bar>"
    define axE where "axE = \<bar>xv - E\<bar>"
    have "axE \<le> axy + ayE" "ay \<le> ayE + aE" "0 \<le> aE"
      unfolding axE_def axy_def ayE_def ay_def aE_def by linarith+
    moreover have "axy \<le> ay * (1 / 2 ^ 53)" "ayE \<le> aE * (5 / 2 ^ 54)" "aE \<le> 2147483647"
      using xy yE E_up by (simp_all only: axy_def ay_def ayE_def aE_def)
    ultimately have "axE < 1 / 2 ^ 20"
      by (simp?; linarith?)
    then have xE: "\<bar>xv - E\<bar> < 1 / 2 ^ 20"
      by (simp only: axE_def)
    from c_round_near [of mx ex]
    obtain k where "\<bar>real_of_int k - xv\<bar> \<le> 1 / 2"
      and i: "int_of_double (c_round (Finite mx ex))
                = (if - (2 ^ 31) \<le> k \<and> k < 2 ^ 31 then k else - (2 ^ 31))"
      by (auto simp: xv_def)
    with xE have kE: "\<bar>real_of_int k - E\<bar> \<le> 1 / 2 + 1 / 2 ^ 20"
      by linarith
    note kb = abs_diff_bounds [OF kE]
    have Eb: "E \<le> 2147483647" "- 2147483647 \<le> E"
      using E_up by linarith+
    have "- 2147483648 < real_of_int k"
      using kb(1) Eb(2) by (simp?; linarith?)
    moreover have "real_of_int k < 2147483648"
      using kb(2) Eb(1) by (simp?; linarith?)
    ultimately have "- 2147483648 < real_of_int k" "real_of_int k < 2147483648" .
    then have "- (2 ^ 31) \<le> k \<and> k < 2 ^ 31"
      by simp
    with i res x have "rescale_ts rel (num, den) = k"
      by simp
    with kE E show ?thesis
      by simp
  qed
qed


lemma ddiv_int:
  assumes "n \<noteq> 0"
    and "real_of_int m * 2 powr real_of_int e = real_of_int k * (real_of_int n * 2 powr real_of_int f)"
    and "\<bar>k\<bar> < 2 ^ 53"
  shows "\<exists>m' e'. ddiv (Finite m e) (Finite n f) = Finite m' e'
           \<and> real_of_int m' * 2 powr real_of_int e' = real_of_int k"
proof -
  define P where "P = m * 2 ^ nat (e - f)"
  define Q where "Q = n * 2 ^ nat (f - e)"
  have nz: "Q \<noteq> 0"
    using assms(1) by (simp add: Q_def)
  have "real_of_int P / real_of_int Q
          = (real_of_int m / real_of_int n) * 2 powr real_of_int (e - f)"
    using ratio_scale [of m "e - f" n] by (simp add: P_def Q_def)
  also have "\<dots> = (real_of_int m * 2 powr real_of_int e) / (real_of_int n * 2 powr real_of_int f)"
    by (simp add: powr_diff)
  also have "\<dots> = real_of_int k"
    using assms(1) by (simp add: assms(2))
  finally have "real_of_int P = real_of_int (k * Q)"
    using nz by (simp add: field_simps)
  then have "P = k * Q"
    by (simp only: of_int_eq_iff)
  from rnd_quot_int [OF nz this assms(3)] show ?thesis
    using assms(1) by (simp add: P_def Q_def)
qed

text \<open>The equations that evaluate the rescaling of given numbers.\<close>

lemmas eval_double = rescale_ts_def av_q2d_def double_of_int_def rnd_quot_def rnd_mag_def
  quot_exponent_def compute_bitlen round_half_even_def Let_def

text \<open>
  With a time base of milliseconds the divisor is exactly 1: the result is the relative
  timestamp itself when it fits in an \<^verbatim>\<open>int\<close>.
\<close>

lemma ms_divisor: "dmul (Finite 1000 0) (av_q2d (1, 1000)) = Finite 4503599627370496 (- 52)"
  by (simp add: eval_double)

lemma rescale_ts_ms:
  assumes "\<bar>rel\<bar> < 2 ^ 53"
  shows "rescale_ts rel (1, 1000)
           = (if - (2 ^ 31) \<le> rel \<and> rel < 2 ^ 31 then rel else - (2 ^ 31))"
proof -
  obtain mr er where dr: "double_of_int rel = Finite mr er"
    and vr: "real_of_int mr * 2 powr real_of_int er = real_of_int rel"
    using double_of_int_exact [OF assms] by auto
  have "(2 :: real) powr (- 52) = 1 / 2 ^ 52"
    by (simp add: powr_minus_divide)
  then have "real_of_int mr * 2 powr real_of_int er
               = real_of_int rel * (real_of_int 4503599627370496 * 2 powr real_of_int (- 52))"
    by (simp add: vr)
  from ddiv_int [OF _ this assms]
  obtain mx ex where x: "ddiv (Finite mr er) (Finite 4503599627370496 (- 52)) = Finite mx ex"
    and vx: "real_of_int mx * 2 powr real_of_int ex = real_of_int rel"
    by auto
  from c_round_near [of mx ex]
  obtain k where k: "\<bar>real_of_int k - real_of_int rel\<bar> \<le> 1 / 2"
    and i: "int_of_double (c_round (Finite mx ex))
              = (if - (2 ^ 31) \<le> k \<and> k < 2 ^ 31 then k else - (2 ^ 31))"
    by (auto simp: vx)
  have "\<bar>real_of_int (k - rel)\<bar> < real_of_int 1"
    using k by simp
  then have "\<bar>k - rel\<bar> < 1"
    by (simp only: of_int_abs [symmetric] of_int_less_iff)
  then have "k = rel"
    by simp
  moreover have "rescale_ts rel (1, 1000) = int_of_double (c_round (Finite mx ex))"
    by (simp only: rescale_ts_def ms_divisor dr x)
  ultimately show ?thesis
    using i by simp
qed

lemma rescale_ts_zero:
  assumes "0 < num" and "num < 2 ^ 31" and "0 < den" and "den < 2 ^ 31"
  shows "rescale_ts 0 (num, den) = 0"
proof -
  from rescale_ts_near [OF assms, of 0]
  have "\<bar>real_of_int (rescale_ts 0 (num, den))\<bar> \<le> 1 / 2 + 1 / 2 ^ 20"
    using assms(1) by simp
  then have "\<bar>real_of_int (rescale_ts 0 (num, den))\<bar> < real_of_int 1"
    by simp
  then have "\<bar>rescale_ts 0 (num, den)\<bar> < 1"
    by (simp only: of_int_abs [symmetric] of_int_less_iff)
  then show ?thesis
    by simp
qed

lemma rescale_ts_nonneg:
  assumes "0 < num" and "num < 2 ^ 31" and "0 < den" and "den < 2 ^ 31"
    and "0 \<le> rel" and "rel < 2 ^ 53" and "rel * den \<le> 2147483647 * (1000 * num)"
  shows "0 \<le> rescale_ts rel (num, den)"
proof -
  have a: "\<bar>rel\<bar> = rel"
    using assms(5) by simp
  from rescale_ts_near [OF assms(1-4), of rel] assms(6,7)
  have "\<bar>real_of_int (rescale_ts rel (num, den))
           - real_of_int (rel * den) / real_of_int (1000 * num)\<bar> \<le> 1 / 2 + 1 / 2 ^ 20"
    by (simp only: a)
  note b = abs_diff_bounds [OF this]
  have "0 \<le> real_of_int (rel * den) / real_of_int (1000 * num)"
    using assms(1,3,5) by simp
  with b(1) have "real_of_int (- 1) < real_of_int (rescale_ts rel (num, den))"
    by (simp?; linarith?)
  then have "- 1 < rescale_ts rel (num, den)"
    by (simp only: of_int_less_iff)
  then show ?thesis
    by simp
qed

section \<open>The buffer between packets\<close>

text \<open>
  Two conditions on the variables of the second loop.  \<open>buffer_ok\<close>: the offset is not
  negative and the recorded size of the buffer does not exceed what is allocated.
  \<open>pending st acc\<close>: the bytes \<open>acc\<close> of withheld payloads are the first
  \<^verbatim>\<open>packet_buffer_offset\<close> bytes of the buffer.  \<open>cells_after st pl\<close> is the buffer
  after the payload \<open>pl\<close> of a video frame has been read in state \<open>st\<close>, and
  \<open>is_parameter_set\<close> is the test the loop makes on it.
\<close>

definition buffer_ok :: "extract_state \<Rightarrow> bool" where
  "buffer_ok st \<longleftrightarrow>
     0 \<le> packet_buffer_offset st
     \<and> (case packet_buffer st of
          None \<Rightarrow> True
        | Some cells \<Rightarrow> packet_buffer_length st \<le> length cells)"

definition pending :: "extract_state \<Rightarrow> byte list \<Rightarrow> bool" where
  "pending st acc \<longleftrightarrow>
     packet_buffer_offset st = int (length acc)
     \<and> (case packet_buffer st of
          None \<Rightarrow> acc = []
        | Some cells \<Rightarrow>
            packet_buffer_length st \<le> length cells \<and> length acc \<le> length cells
            \<and> take (length acc) cells = map Some acc)"

lemma pending_buffer_ok: "pending st acc \<Longrightarrow> buffer_ok st"
  by (auto simp: pending_def buffer_ok_def split: option.splits)

lemma pending_init: "pending extract_init []"
  by (simp add: pending_def extract_init_def)

lemma length_buffer_for:
  assumes "case dest of None \<Rightarrow> True | Some cells \<Rightarrow> sz \<le> length cells"
  shows "need \<le> length (buffer_for dest off need sz)"
  using assms
  by (auto simp: buffer_for_def malloc_def realloc_def split: option.splits)

lemma take_buffer_for:
  assumes "sz \<le> length cells" and "n \<le> length cells" and "n \<le> need"
  shows "take n (buffer_for (Some cells) n need sz) = take n cells"
  using assms
  by (auto simp: buffer_for_def malloc_def realloc_def min_def)

lemma take_store_bytes:
  assumes "off + length pl \<le> length B"
  shows "take (off + length pl) (store_bytes B off pl) = take off B @ map Some pl"
  using assms by (simp add: store_bytes_def)

lemma length_store_bytes:
  assumes "off + length pl \<le> length B"
  shows "length (store_bytes B off pl) = length B"
  using assms by (simp add: store_bytes_def)

lemma nth_store_bytes:
  assumes "off + length pl \<le> length B" and "i < length pl"
  shows "store_bytes B off pl ! (off + i) = Some (pl ! i)"
  using assms by (simp add: store_bytes_def nth_append)

lemma segment_store_bytes:
  assumes "off + length pl \<le> length B"
  shows "take (length pl) (drop off (store_bytes B off pl)) = map Some pl"
  using assms by (simp add: store_bytes_def)

lemma nal_unit_type_store_bytes:
  assumes "off + length pl \<le> length B" and "5 \<le> length pl"
  shows "nal_unit_type (Some (store_bytes B off pl)) (int off) = Some (pl ! 4 AND 31)"
proof -
  have "store_bytes B off pl ! (off + 4) = Some (pl ! 4)"
    using assms by (intro nth_store_bytes) simp_all
  moreover have "off + 4 < length (store_bytes B off pl)"
    using assms by (simp add: length_store_bytes)
  ultimately show ?thesis
    by (simp add: nal_unit_type_def)
qed


definition cells_after :: "extract_state \<Rightarrow> byte list \<Rightarrow> cell list" where
  "cells_after st pl =
     store_bytes
       (buffer_for (packet_buffer st) (nat (packet_buffer_offset st))
          (length pl + nat (packet_buffer_offset st)) (packet_buffer_length st))
       (nat (packet_buffer_offset st)) pl"

definition is_parameter_set :: "byte list \<Rightarrow> bool" where
  "is_parameter_set pl \<longleftrightarrow> pl ! 4 AND 31 = 7 \<or> pl ! 4 AND 31 = 8"

lemma cells_after_facts:
  assumes "buffer_ok st"
  shows "nat (packet_buffer_offset st) + length pl \<le> length (cells_after st pl)"
    and "take (length pl) (drop (nat (packet_buffer_offset st)) (cells_after st pl)) = map Some pl"
    and "5 \<le> length pl \<Longrightarrow>
         nal_unit_type (Some (cells_after st pl)) (packet_buffer_offset st) = Some (pl ! 4 AND 31)"
proof -
  let ?off = "nat (packet_buffer_offset st)"
  let ?B = "buffer_for (packet_buffer st) ?off (length pl + ?off) (packet_buffer_length st)"
  from assms have "case packet_buffer st of None \<Rightarrow> True
                   | Some cells \<Rightarrow> packet_buffer_length st \<le> length cells"
    by (simp add: buffer_ok_def)
  from length_buffer_for [OF this] have len: "?off + length pl \<le> length ?B"
    by (simp add: add.commute)
  from assms have off: "int ?off = packet_buffer_offset st"
    by (simp add: buffer_ok_def)
  show "?off + length pl \<le> length (cells_after st pl)"
    using len by (simp add: cells_after_def length_store_bytes)
  show "take (length pl) (drop ?off (cells_after st pl)) = map Some pl"
    using len by (simp add: cells_after_def segment_store_bytes)
  show "nal_unit_type (Some (cells_after st pl)) (packet_buffer_offset st) = Some (pl ! 4 AND 31)"
    if "5 \<le> length pl"
    using nal_unit_type_store_bytes [OF len that] off by (simp add: cells_after_def)
qed

lemma extract_step_hxvf_ok:
  assumes "buffer_ok st" and "5 \<le> length pl"
    and "packet_buffer_offset st + int (length pl) < 2 ^ 31"
  shows "extract_step mx ist a (file_at pre (hxvf_packet ts pl @ rest)) st =
     Inr (file_at (pre @ hxvf_packet ts pl) rest,
          (if is_parameter_set pl then
             st\<lparr>packet_buffer := Some (cells_after st pl),
                packet_buffer_length := length pl + nat (packet_buffer_offset st),
                packet_buffer_offset := packet_buffer_offset st + int (length pl)\<rparr>
           else
             st\<lparr>packet_buffer := Some (cells_after st pl),
                packet_buffer_length := length pl + nat (packet_buffer_offset st),
                packet_buffer_offset := 0,
                written := written st @
                  [\<lparr>data = take (length pl + nat (packet_buffer_offset st)) (cells_after st pl),
                    stream_index = Video,
                    pts = rescale_ts (uint ts - video_ts_initial ist) (v_time_base mx)\<rparr>]\<rparr>),
          False)"
proof -
  have "0 < length pl" "0 \<le> packet_buffer_offset st"
    using assms by (auto simp: buffer_ok_def)
  from extract_step_hxvf [OF this assms(3)] cells_after_facts(3) [OF assms(1,2)]
  show ?thesis
    by (simp add: Let_def cells_after_def is_parameter_set_def)
qed

lemma cells_after_pending:
  assumes "pending st acc"
  shows "take (length acc + length pl) (cells_after st pl) = map Some (acc @ pl)"
proof -
  let ?B = "buffer_for (packet_buffer st) (length acc) (length pl + length acc)
              (packet_buffer_length st)"
  from assms have off: "nat (packet_buffer_offset st) = length acc"
    by (simp add: pending_def)
  have "case packet_buffer st of None \<Rightarrow> True
        | Some cells \<Rightarrow> packet_buffer_length st \<le> length cells"
    using assms by (auto simp: pending_def split: option.splits)
  from length_buffer_for [OF this] have len: "length acc + length pl \<le> length ?B"
    by (simp add: add.commute)
  have pre: "take (length acc) ?B = map Some acc"
  proof (cases "packet_buffer st")
    case None
    with assms show ?thesis by (simp add: pending_def)
  next
    case (Some cells)
    with assms have "packet_buffer_length st \<le> length cells" "length acc \<le> length cells"
      "take (length acc) cells = map Some acc"
      by (simp_all add: pending_def)
    with Some take_buffer_for [of "packet_buffer_length st" cells "length acc"
                                 "length pl + length acc"]
    show ?thesis by simp
  qed
  show ?thesis
    using take_store_bytes [OF len] pre by (simp add: cells_after_def off)
qed

lemma extract_step_hxvf_pending:
  assumes "pending st acc" and "5 \<le> length pl" and "length acc + length pl < 2 ^ 31"
  shows "\<exists>st'. extract_step mx ist a (file_at pre (hxvf_packet ts pl @ rest)) st =
                 Inr (file_at (pre @ hxvf_packet ts pl) rest, st', False)
          \<and> (if is_parameter_set pl then
                pending st' (acc @ pl) \<and> written st' = written st
              else
                pending st' []
                \<and> written st' = written st @
                     [\<lparr>data = map Some (acc @ pl), stream_index = Video,
                       pts = rescale_ts (uint ts - video_ts_initial ist) (v_time_base mx)\<rparr>])"
proof -
  from assms(1) have off: "packet_buffer_offset st = int (length acc)"
    by (simp add: pending_def)
  have ok: "buffer_ok st"
    using assms(1) by (rule pending_buffer_ok)
  have small: "packet_buffer_offset st + int (length pl) < 2 ^ 31"
    using assms(3) off by simp
  note step = extract_step_hxvf_ok [OF ok assms(2) small, of mx ist a pre ts rest]
  note tk = cells_after_pending [OF assms(1), of pl]
  note ln = cells_after_facts(1) [OF ok, of pl]
  show ?thesis
  proof (cases "is_parameter_set pl")
    case True
    have "pending (st\<lparr>packet_buffer := Some (cells_after st pl),
                packet_buffer_length := length pl + nat (packet_buffer_offset st),
                packet_buffer_offset := packet_buffer_offset st + int (length pl)\<rparr>) (acc @ pl)"
      using tk ln off by (simp add: pending_def add.commute)
    with True step show ?thesis by simp
  next
    case False
    have "pending (st\<lparr>packet_buffer := Some (cells_after st pl),
                packet_buffer_length := length pl + nat (packet_buffer_offset st),
                packet_buffer_offset := 0,
                written := written st @
                  [\<lparr>data = take (length pl + nat (packet_buffer_offset st)) (cells_after st pl),
                    stream_index = Video,
                    pts = rescale_ts (uint ts - video_ts_initial ist) (v_time_base mx)\<rparr>]\<rparr>) []"
      using ln off by (simp add: pending_def add.commute)
    moreover have "take (length pl + nat (packet_buffer_offset st)) (cells_after st pl)
                   = map Some (acc @ pl)"
      using tk off by (simp add: add.commute)
    ultimately show ?thesis
      using False step by simp
  qed
qed


lemma extract_loop_hxvf_pending:
  assumes "pending st acc" and "5 \<le> length pl" and "length acc + length pl < 2 ^ 31"
  shows "\<exists>st'. extract_loop mx ist a (file_at pre (hxvf_packet ts pl @ rest)) st =
                 extract_loop mx ist a (file_at (pre @ hxvf_packet ts pl) rest) st'
          \<and> (if is_parameter_set pl then
                pending st' (acc @ pl) \<and> written st' = written st
              else
                pending st' []
                \<and> written st' = written st @
                     [\<lparr>data = map Some (acc @ pl), stream_index = Video,
                       pts = rescale_ts (uint ts - video_ts_initial ist) (v_time_base mx)\<rparr>])"
proof -
  from extract_step_hxvf_pending [OF assms, of mx ist a pre ts rest]
  obtain st' where
    step: "extract_step mx ist a (file_at pre (hxvf_packet ts pl @ rest)) st =
             Inr (file_at (pre @ hxvf_packet ts pl) rest, st', False)"
    and res: "if is_parameter_set pl then
                pending st' (acc @ pl) \<and> written st' = written st
              else
                pending st' []
                \<and> written st' = written st @
                     [\<lparr>data = map Some (acc @ pl), stream_index = Video,
                       pts = rescale_ts (uint ts - video_ts_initial ist) (v_time_base mx)\<rparr>]"
    by blast
  from extract_loop_next [OF step] res show ?thesis
    by auto
qed

lemma coalesce_three:
  assumes "5 \<le> length pa" "5 \<le> length pb" "5 \<le> length pc"
    and "length pa + length pb + length pc < 2 ^ 31"
    and "is_parameter_set pa" "is_parameter_set pb" "\<not> is_parameter_set pc"
    and "pending st []"
  shows "\<exists>st'. extract_loop mx ist a
                 (file_at pre (hxvf_packet ta pa @ hxvf_packet tb pb @ hxvf_packet tc pc @ rest)) st
               = extract_loop mx ist a
                 (file_at (pre @ hxvf_packet ta pa @ hxvf_packet tb pb @ hxvf_packet tc pc) rest) st'
          \<and> pending st' []
          \<and> written st' = written st @
                [\<lparr>data = map Some (pa @ pb @ pc), stream_index = Video,
                  pts = rescale_ts (uint tc - video_ts_initial ist) (v_time_base mx)\<rparr>]"
proof -
  from extract_loop_hxvf_pending [OF assms(8) assms(1), of mx ist a pre ta
         "hxvf_packet tb pb @ hxvf_packet tc pc @ rest"] assms(4,5)
  obtain st1 where
    l1: "extract_loop mx ist a
           (file_at pre (hxvf_packet ta pa @ hxvf_packet tb pb @ hxvf_packet tc pc @ rest)) st
         = extract_loop mx ist a
           (file_at (pre @ hxvf_packet ta pa) (hxvf_packet tb pb @ hxvf_packet tc pc @ rest)) st1"
    and pa: "pending st1 pa" and w1: "written st1 = written st"
    by auto
  from extract_loop_hxvf_pending [OF pa assms(2), of mx ist a "pre @ hxvf_packet ta pa" tb
         "hxvf_packet tc pc @ rest"] assms(4,6)
  obtain st2 where
    l2: "extract_loop mx ist a
           (file_at (pre @ hxvf_packet ta pa) (hxvf_packet tb pb @ hxvf_packet tc pc @ rest)) st1
         = extract_loop mx ist a
           (file_at (pre @ hxvf_packet ta pa @ hxvf_packet tb pb) (hxvf_packet tc pc @ rest)) st2"
    and pb: "pending st2 (pa @ pb)" and w2: "written st2 = written st1"
    by auto
  from extract_loop_hxvf_pending [OF pb assms(3), of mx ist a
         "pre @ hxvf_packet ta pa @ hxvf_packet tb pb" tc rest] assms(4,7)
  obtain st3 where
    l3: "extract_loop mx ist a
           (file_at (pre @ hxvf_packet ta pa @ hxvf_packet tb pb) (hxvf_packet tc pc @ rest)) st2
         = extract_loop mx ist a
           (file_at (pre @ hxvf_packet ta pa @ hxvf_packet tb pb @ hxvf_packet tc pc) rest) st3"
    and pc: "pending st3 []"
    and w3: "written st3 = written st2 @
                [\<lparr>data = map Some ((pa @ pb) @ pc), stream_index = Video,
                  pts = rescale_ts (uint tc - video_ts_initial ist) (v_time_base mx)\<rparr>]"
    by auto
  from l1 l2 l3 pc w1 w2 w3 show ?thesis
    by auto
qed

lemma separate_two:
  assumes "5 \<le> length pa" "5 \<le> length pb"
    and "length pa < 2 ^ 31" "length pb < 2 ^ 31"
    and "\<not> is_parameter_set pa" "\<not> is_parameter_set pb"
    and "pending st []"
  shows "\<exists>st'. extract_loop mx ist a
                 (file_at pre (hxvf_packet ta pa @ hxvf_packet tb pb @ rest)) st
               = extract_loop mx ist a
                 (file_at (pre @ hxvf_packet ta pa @ hxvf_packet tb pb) rest) st'
          \<and> pending st' []
          \<and> written st' = written st @
                [\<lparr>data = map Some pa, stream_index = Video,
                  pts = rescale_ts (uint ta - video_ts_initial ist) (v_time_base mx)\<rparr>,
                 \<lparr>data = map Some pb, stream_index = Video,
                  pts = rescale_ts (uint tb - video_ts_initial ist) (v_time_base mx)\<rparr>]"
proof -
  from extract_loop_hxvf_pending [OF assms(7) assms(1), of mx ist a pre ta
         "hxvf_packet tb pb @ rest"] assms(3,5)
  obtain st1 where
    l1: "extract_loop mx ist a (file_at pre (hxvf_packet ta pa @ hxvf_packet tb pb @ rest)) st
         = extract_loop mx ist a (file_at (pre @ hxvf_packet ta pa) (hxvf_packet tb pb @ rest)) st1"
    and pa: "pending st1 []"
    and w1: "written st1 = written st @
                [\<lparr>data = map Some pa, stream_index = Video,
                  pts = rescale_ts (uint ta - video_ts_initial ist) (v_time_base mx)\<rparr>]"
    by auto
  from extract_loop_hxvf_pending [OF pa assms(2), of mx ist a "pre @ hxvf_packet ta pa" tb rest]
    assms(4,6)
  obtain st2 where
    l2: "extract_loop mx ist a (file_at (pre @ hxvf_packet ta pa) (hxvf_packet tb pb @ rest)) st1
         = extract_loop mx ist a (file_at (pre @ hxvf_packet ta pa @ hxvf_packet tb pb) rest) st2"
    and pb: "pending st2 []"
    and w2: "written st2 = written st1 @
                [\<lparr>data = map Some pb, stream_index = Video,
                  pts = rescale_ts (uint tb - video_ts_initial ist) (v_time_base mx)\<rparr>]"
    by auto
  from l1 l2 pb w1 w2 show ?thesis
    by auto
qed



section \<open>An invariant of the second loop\<close>

text \<open>
  On an input shorter than \<open>2\<^sup>3\<^sup>1\<close> bytes the offset into the buffer never exceeds the
  position in the file, so the arithmetic on \<^verbatim>\<open>int\<close> does not overflow, and
  \<open>buffer_ok\<close> holds in every state the loop reaches: \<open>extract_inv\<close> holds at the start
  and every iteration keeps it.
\<close>

definition extract_inv :: "FILE \<Rightarrow> extract_state \<Rightarrow> bool" where
  "extract_inv fp st \<longleftrightarrow>
     buffer_ok st
     \<and> packet_buffer_offset st \<le> int (f_pos fp)
     \<and> packet_buffer_offset st \<le> int (length (f_bytes fp))
     \<and> length (f_bytes fp) < 2 ^ 31"

lemma extract_inv_init: "length bs < 2 ^ 31 \<Longrightarrow> extract_inv (fopen bs) extract_init"
  by (simp add: extract_inv_def buffer_ok_def extract_init_def fopen_def)

lemma length_store_bytes_le:
  assumes "off + length bs \<le> length B"
  shows "length (store_bytes B off bs) = length B"
  using assms by (simp add: store_bytes_def)

lemma ReadToBuffer_inv:
  assumes "case dest of None \<Rightarrow> True | Some c \<Rightarrow> sz \<le> length c"
    and "len + off < 2 ^ 64"
    and "ReadToBuffer fp dest off len sz = (n, fp', buf, blen)"
  shows "(case buf of None \<Rightarrow> True | Some c \<Rightarrow> blen \<le> length c)
         \<and> n \<le> len \<and> f_pos fp' = f_pos fp + n \<and> f_bytes fp' = f_bytes fp
         \<and> n \<le> length (f_bytes fp) - f_pos fp"
proof (cases "len = 0")
  case True
  with assms(3) have "n = 0" "fp' = fp" "buf = dest" "blen = sz"
    by (simp_all add: ReadToBuffer_def)
  with assms(1) show ?thesis
    by (cases dest) simp_all
next
  case False
  let ?B = "buffer_for dest off (len + off) sz"
  obtain got fp1 where r: "fread fp len = (got, fp1)"
    by (cases "fread fp len")
  from assms(2) have m: "(len + off) mod 2 ^ 64 = len + off"
    by simp
  from assms(3) False r
  have res: "n = length got" "fp' = fp1" "buf = Some (store_bytes ?B off got)" "blen = len + off"
    unfolding ReadToBuffer_def Let_def buffer_for_def m by auto
  note f = fread_facts [OF r]
  have "len + off \<le> length ?B"
    by (rule length_buffer_for [OF assms(1)])
  with f(3) have "off + length got \<le> length ?B"
    by simp
  then have "length (store_bytes ?B off got) = length ?B"
    by (rule length_store_bytes_le)
  with \<open>len + off \<le> length ?B\<close> have "blen \<le> length (store_bytes ?B off got)"
    by (simp add: res)
  moreover have "length got \<le> length (f_bytes fp) - f_pos fp"
    by (simp add: f(4))
  ultimately show ?thesis
    using f res by simp
qed


lemma extract_hxvf_inv:
  assumes "extract_inv fp st" and "extract_hxvf mx ist fp st = Inr (fp', st', h)"
  shows "extract_inv fp' st'"
proof -
  obtain d fp2 where r: "fread fp sizeof_HXVFFrame_t = (d, fp2)"
    by (cases "fread fp sizeof_HXVFFrame_t")
  let ?len = "field32 d 0"
  let ?off = "packet_buffer_offset st"
  obtain n fp3 buf blen where
    rb: "ReadToBuffer fp2 (packet_buffer st) (size_of_int ?off) (unat ?len)
           (packet_buffer_length st) = (n, fp3, buf, blen)"
    by (metis prod_cases4)
  from assms(1) have ok: "buffer_ok st" and off: "?off \<le> int (f_pos fp)"
    "?off \<le> int (length (f_bytes fp))"
    and small: "length (f_bytes fp) < 2 ^ 31"
    by (simp_all add: extract_inv_def)
  from ok have off0: "0 \<le> ?off"
    and sz: "case packet_buffer st of None \<Rightarrow> True
             | Some c \<Rightarrow> packet_buffer_length st \<le> length c"
    by (simp_all add: buffer_ok_def)
  from off(2) small have offs: "?off < 2 ^ 31"
    by simp
  have so: "size_of_int ?off = nat ?off"
    using off0 offs by (simp add: size_of_int_small)
  have "unat ?len < 2 ^ LENGTH(32)"
    by (rule unsigned_less)
  then have "unat ?len + size_of_int ?off < 2 ^ 64"
    using offs off0 by (simp add: so)
  from ReadToBuffer_inv [OF sz this rb]
  have buf: "case buf of None \<Rightarrow> True | Some c \<Rightarrow> blen \<le> length c"
    and n: "n \<le> length (f_bytes fp2) - f_pos fp2" "f_pos fp3 = f_pos fp2 + n"
      "f_bytes fp3 = f_bytes fp2"
    by simp_all
  note f = fread_facts [OF r]
  from n f small have nsmall: "n < 2 ^ 31"
    by simp
  then have ret: "int_of_size n = int n"
    by (rule int_of_size_small)
  have "nat ?off \<le> f_pos fp" "nat ?off \<le> length (f_bytes fp)"
    using off by simp_all
  moreover have "f_pos fp \<le> f_pos fp2" "n \<le> length (f_bytes fp) - f_pos fp2"
    using f(1,2) n(1) by simp_all
  ultimately have "nat ?off + n \<le> f_pos fp2 + n" "nat ?off + n \<le> length (f_bytes fp)"
    by arith+
  then have "int (nat ?off + n) \<le> int (f_pos fp2 + n)"
    "int (nat ?off + n) \<le> int (length (f_bytes fp))"
    by (simp_all only: of_nat_le_iff)
  moreover have "int (nat ?off + n) = ?off + int n"
    using off0 by simp
  moreover have "f_pos fp3 = f_pos fp2 + n" "f_bytes fp3 = f_bytes fp"
    using n(2,3) f(1) by simp_all
  ultimately have pos: "?off + int n \<le> int (f_pos fp3)"
    "?off + int n \<le> int (length (f_bytes fp3))"
    by (simp_all only:)
  have "int (length (f_bytes fp)) < 2147483648"
    using small by simp
  with pos(2) \<open>f_bytes fp3 = f_bytes fp\<close> have "?off + int n < 2147483648"
    by simp
  then have sum: "?off + int n < 2 ^ 31"
    by simp
  have add: "int_add ?off (int n) = ?off + int n"
    using off0 sum by (intro int_add_small) simp_all
  from assms(2) r rb
  have "fp' = fp3 \<and> packet_buffer st' = buf \<and> packet_buffer_length st' = blen
        \<and> (packet_buffer_offset st' = ?off + int n \<or> packet_buffer_offset st' = 0)"
    by (auto simp: extract_hxvf_def Let_def ret add split: if_splits option.splits)
  with buf pos off0 small n(3) f(1) show ?thesis
    by (auto simp: extract_inv_def buffer_ok_def)
qed


lemma extract_inv_advance:
  assumes "extract_inv fp st" and "f_bytes fp' = f_bytes fp" and "f_pos fp \<le> f_pos fp'"
  shows "extract_inv fp' st"
proof -
  from assms(1) have "packet_buffer_offset st \<le> int (f_pos fp)"
    by (simp add: extract_inv_def)
  with assms(3) have "packet_buffer_offset st \<le> int (f_pos fp')"
    by simp
  with assms(1,2) show ?thesis
    by (simp add: extract_inv_def)
qed

lemma extract_hxaf_inv:
  assumes "extract_inv fp st" and "extract_hxaf mx ist a fp st = Inr (fp', st', h)"
  shows "extract_inv fp' st'"
proof -
  obtain d fp2 where r: "fread fp sizeof_HXAFFrame_t = (d, fp2)"
    by (cases "fread fp sizeof_HXAFFrame_t")
  note f = fread_facts [OF r]
  have inv2: "extract_inv fp2 st"
    using f(1,2) by (intro extract_inv_advance [OF assms(1)]) simp_all
  show ?thesis
  proof (cases a)
    case False
    with assms(2) r obtain fp3 where "fseek_cur fp2 (uint (field32 d 0 - 4)) = Some fp3"
      and res: "fp' = fp3" "st' = st"
      by (auto simp: extract_hxaf_def Let_def split: if_splits option.splits)
    from fseek_cur_uint [OF this(1)] have "extract_inv fp3 st"
      by (intro extract_inv_advance [OF inv2]) simp_all
    with res show ?thesis by simp
  next
    case True
    let ?len = "field32 d 0 - 4"
    obtain n fp3 buf blen where
      rb: "ReadToBuffer fp2 (packet_buffer st) 0 (unat ?len) (packet_buffer_length st)
             = (n, fp3, buf, blen)"
      by (metis prod_cases4)
    from inv2 have ok: "buffer_ok st"
      and off: "packet_buffer_offset st \<le> int (f_pos fp2)"
        "packet_buffer_offset st \<le> int (length (f_bytes fp2))"
      and small: "length (f_bytes fp2) < 2 ^ 31"
      by (simp_all add: extract_inv_def)
    from ok have off0: "0 \<le> packet_buffer_offset st"
      and sz: "case packet_buffer st of None \<Rightarrow> True
               | Some c \<Rightarrow> packet_buffer_length st \<le> length c"
      by (simp_all add: buffer_ok_def)
    have "unat ?len < 2 ^ LENGTH(32)"
      by (rule unsigned_less)
    then have "unat ?len + 0 < 2 ^ 64"
      by simp
    from ReadToBuffer_inv [OF sz this rb]
    have buf: "case buf of None \<Rightarrow> True | Some c \<Rightarrow> blen \<le> length c"
      and n: "f_pos fp3 = f_pos fp2 + n" "f_bytes fp3 = f_bytes fp2"
      by simp_all
    from assms(2) r rb True
    have res: "fp' = fp3" "packet_buffer st' = buf" "packet_buffer_length st' = blen"
      "packet_buffer_offset st' = packet_buffer_offset st"
      by (auto simp: extract_hxaf_def Let_def split: if_splits option.splits)
    have "packet_buffer_offset st \<le> int (f_pos fp3)"
      "packet_buffer_offset st \<le> int (length (f_bytes fp3))"
      using off n by simp_all
    with buf off0 small n(2) res show ?thesis
      by (auto simp: extract_inv_def buffer_ok_def)
  qed
qed

lemma extract_step_inv:
  assumes "extract_inv fp st" and "extract_step mx ist a fp st = Inr (fp', st', h)"
  shows "extract_inv fp' st'"
proof -
  obtain hdr fp1 where r: "fread fp 4 = (hdr, fp1)"
    by (cases "fread fp 4")
  note f = fread_facts [OF r]
  have inv1: "extract_inv fp1 st"
    using f(1,2) by (intro extract_inv_advance [OF assms(1)]) simp_all
  from assms(2) r consider
      fp2 where "fseek_cur fp1 (int sizeof_HXVSFrame_t) = Some fp2" "fp' = fp2" "st' = st"
    | "extract_hxvf mx ist fp1 st = Inr (fp', st', h)"
    | "extract_hxaf mx ist a fp1 st = Inr (fp', st', h)"
    | "fp' = fp1" "st' = st"
    by (auto simp: extract_step_def Let_def split: if_splits option.splits)
  then show ?thesis
  proof cases
    case 1
    from fseek_cur_nat [OF 1(1)] have "extract_inv fp2 st"
      by (intro extract_inv_advance [OF inv1]) simp_all
    with 1(2,3) show ?thesis by simp
  next
    case 2
    with inv1 show ?thesis by (rule extract_hxvf_inv)
  next
    case 3
    with inv1 show ?thesis by (rule extract_hxaf_inv)
  next
    case 4
    with inv1 show ?thesis by simp
  qed
qed

lemma extract_inv_step_conditions:
  assumes "extract_inv (file_at pre (hxvf_packet ts pl @ rest)) st"
  shows "buffer_ok st" and "packet_buffer_offset st + int (length pl) < 2 ^ 31"
proof -
  from assms show "buffer_ok st"
    by (simp add: extract_inv_def)
  from assms have "packet_buffer_offset st \<le> int (length pre)"
    and "length pre + (16 + length pl + length rest) < 2147483648"
    by (simp_all add: extract_inv_def file_at_def)
  then have "packet_buffer_offset st + int (length pl) < 2147483648"
    by linarith
  then show "packet_buffer_offset st + int (length pl) < 2 ^ 31"
    by simp
qed

section \<open>Errors, audio packets and inputs of video frames\<close>

text \<open>
  The first loop ends in no error but \<open>TruncatedStream\<close>, and the second never in
  \<open>NoVideoDetected\<close>.  Without an audio stream the second loop writes video packets
  only (\<open>only_video\<close>).  \<open>video_frames vs\<close> is the sequence of video frames with the
  timestamps and payloads of the list \<open>vs\<close>.
\<close>

lemma infer_step_error: "infer_step fp st = Inl e \<Longrightarrow> e = TruncatedStream"
  by (auto simp: infer_step_def Let_def split: prod.splits if_splits option.splits)

lemma infer_loop_error: "infer_loop fp st = Inl e \<Longrightarrow> e = TruncatedStream"
proof (induction fp st rule: infer_loop.induct)
  case (1 fp st)
  show ?case
  proof (cases "infer_step fp st")
    case (Inl e')
    with "1.prems" infer_step_error [OF Inl] show ?thesis
      by (simp add: infer_loop.simps [of fp st])
  next
    case (Inr r)
    obtain fp' st' h where r: "r = (fp', st', h)"
      by (cases r)
    show ?thesis
    proof (cases "\<not> feof fp' \<and> \<not> h")
      case True
      with Inr r "1.prems" have "infer_loop fp' st' = Inl e"
        by (simp add: infer_loop.simps [of fp st])
      with "1.IH" [of r fp' "(st', h)" st' h] Inr r True show ?thesis
        by simp
    next
      case False
      with Inr r "1.prems" show ?thesis
        by (simp add: infer_loop.simps [of fp st])
    qed
  qed
qed

lemma extract_hxvf_error:
  "extract_hxvf mx ist fp st = Inl e \<Longrightarrow> e \<noteq> NoVideoDetected"
  by (auto simp: extract_hxvf_def Let_def split: prod.splits if_splits option.splits)

lemma extract_hxaf_error:
  "extract_hxaf mx ist a fp st = Inl e \<Longrightarrow> e \<noteq> NoVideoDetected"
  by (auto simp: extract_hxaf_def Let_def split: prod.splits if_splits option.splits)

lemma extract_step_error:
  "extract_step mx ist a fp st = Inl e \<Longrightarrow> e \<noteq> NoVideoDetected"
  by (auto simp: extract_step_def Let_def split: prod.splits if_splits option.splits
           dest: extract_hxvf_error extract_hxaf_error)

lemma extract_loop_error:
  "extract_loop mx ist a fp st = (Some e, st') \<Longrightarrow> e \<noteq> NoVideoDetected"
proof (induction mx ist a fp st rule: extract_loop.induct)
  case (1 mx ist a fp st)
  show ?case
  proof (cases "extract_step mx ist a fp st")
    case (Inl e')
    with "1.prems" extract_step_error [OF Inl] show ?thesis
      by (simp add: extract_loop.simps [of mx ist a fp st])
  next
    case (Inr r)
    obtain fp1 st1 h where r: "r = (fp1, st1, h)"
      by (cases r)
    show ?thesis
    proof (cases "\<not> feof fp1 \<and> \<not> h")
      case True
      with Inr r "1.prems" have "extract_loop mx ist a fp1 st1 = (Some e, st')"
        by (simp add: extract_loop.simps [of mx ist a fp st])
      with "1.IH" [of r fp1 "(st1, h)" st1 h] Inr r True show ?thesis
        by simp
    next
      case False
      with Inr r "1.prems" show ?thesis
        by (simp add: extract_loop.simps [of mx ist a fp st])
    qed
  qed
qed

lemma main_NoVideoDetected:
  "status (main skip_audio mx input) = Some NoVideoDetected \<longleftrightarrow>
     (\<exists>fp ist. infer_loop (fopen input) infer_init = Inr (fp, ist)
        \<and> video_avg_frame_rate ist \<le> 0)"
proof (cases "infer_loop (fopen input) infer_init")
  case (Inl e)
  with infer_loop_error [OF Inl] show ?thesis
    by (simp add: main_def)
next
  case (Inr r)
  obtain fp ist where r: "r = (fp, ist)"
    by (cases r)
  show ?thesis
  proof (cases "video_avg_frame_rate ist \<le> 0")
    case True
    with Inr r show ?thesis
      by (simp add: main_def fseek_set0_def)
  next
    case False
    obtain e est where
      x: "extract_loop mx ist (\<not> skip_audio \<and> \<not> audio_avg_sample_rate ist \<le> 0)
            (fp\<lparr>f_pos := 0, f_eof := False\<rparr>) extract_init = (e, est)"
      by (cases "extract_loop mx ist (\<not> skip_audio \<and> \<not> audio_avg_sample_rate ist \<le> 0)
            (fp\<lparr>f_pos := 0, f_eof := False\<rparr>) extract_init")
    have "e \<noteq> Some NoVideoDetected"
      using extract_loop_error [of mx ist _ _ extract_init NoVideoDetected est] x by auto
    with Inr r False x show ?thesis
      by (simp add: main_def fseek_set0_def Let_def)
  qed
qed


definition only_video :: "AVPacket list \<Rightarrow> bool" where
  "only_video ps = list_all (\<lambda>p. stream_index p = Video) ps"

lemma extract_hxvf_only_video:
  "extract_hxvf mx ist fp st = Inr (fp', st', h) \<Longrightarrow> only_video (written st) \<Longrightarrow>
   only_video (written st')"
  by (auto simp: extract_hxvf_def only_video_def Let_def
           split: prod.splits if_splits option.splits)

lemma extract_hxaf_only_video:
  "extract_hxaf mx ist False fp st = Inr (fp', st', h) \<Longrightarrow> only_video (written st) \<Longrightarrow>
   only_video (written st')"
  by (auto simp: extract_hxaf_def only_video_def Let_def
           split: prod.splits if_splits option.splits)

lemma extract_step_only_video:
  "extract_step mx ist False fp st = Inr (fp', st', h) \<Longrightarrow> only_video (written st) \<Longrightarrow>
   only_video (written st')"
  by (auto simp: extract_step_def Let_def split: prod.splits if_splits option.splits
           dest: extract_hxvf_only_video extract_hxaf_only_video)

lemma extract_loop_only_video:
  "extract_loop mx ist a fp st = (r, st') \<Longrightarrow> \<not> a \<Longrightarrow> only_video (written st) \<Longrightarrow>
   only_video (written st')"
proof (induction mx ist a fp st rule: extract_loop.induct)
  case (1 mx ist a fp st)
  from "1.prems"(2) have a: "a = False"
    by simp
  note unfold = extract_loop.simps [of mx ist False fp st]
  show ?case
  proof (cases "extract_step mx ist False fp st")
    case (Inl e')
    with "1.prems" a show ?thesis
      by (simp add: unfold)
  next
    case (Inr x)
    obtain fp1 st1 h where x: "x = (fp1, st1, h)"
      by (cases x)
    from Inr x "1.prems"(3) have ov: "only_video (written st1)"
      using extract_step_only_video [of mx ist fp st fp1 st1 h] by simp
    show ?thesis
    proof (cases "\<not> feof fp1 \<and> \<not> h")
      case True
      with Inr x "1.prems" a have "extract_loop mx ist False fp1 st1 = (r, st')"
        by (simp add: unfold)
      with "1.IH" [of x fp1 "(st1, h)" st1 h] Inr x True a ov show ?thesis
        by simp
    next
      case False
      with Inr x "1.prems" a ov show ?thesis
        by (simp add: unfold)
    qed
  qed
qed

lemma main_without_audio:
  assumes "infer_loop (fopen input) infer_init = Inr (fp, ist)"
    and "0 < video_avg_frame_rate ist" and "audio_avg_sample_rate ist \<le> 0"
  shows "new_streams (main skip_audio mx input) = [Video]
         \<and> only_video (frames (main skip_audio mx input))"
proof -
  obtain e est where
    x: "extract_loop mx ist False (fp\<lparr>f_pos := 0, f_eof := False\<rparr>) extract_init = (e, est)"
    by (cases "extract_loop mx ist False (fp\<lparr>f_pos := 0, f_eof := False\<rparr>) extract_init")
  have "only_video (written extract_init)"
    by (simp add: only_video_def extract_init_def)
  from extract_loop_only_video [OF x _ this] have "only_video (written est)"
    by simp
  with assms x show ?thesis
    by (simp add: main_def fseek_set0_def Let_def)
qed


definition video_frames :: "(u32 \<times> byte list) list \<Rightarrow> byte list" where
  "video_frames vs = concat (map (\<lambda>(ts, pl). hxvf_packet ts pl) vs)"

lemma video_frames_simps [simp]:
  "video_frames [] = []"
  "video_frames ((ts, pl) # vs) = hxvf_packet ts pl @ video_frames vs"
  by (simp_all add: video_frames_def)

lemma infer_loop_video_frames:
  assumes "length (video_frames vs) < 2 ^ 32"
  shows "infer_loop (file_at pre (video_frames vs @ rest)) st =
           infer_loop (file_at (pre @ video_frames vs) rest)
             (foldl video_rate_update st (map fst vs))"
  using assms
proof (induction vs arbitrary: pre st)
  case Nil
  then show ?case by simp
next
  case (Cons v vs)
  obtain ts pl where v: "v = (ts, pl)"
    by (cases v)
  from Cons.prems v have "length pl < 2 ^ 32" "length (video_frames vs) < 2 ^ 32"
    by simp_all
  with Cons.IH [of "pre @ hxvf_packet ts pl" "video_rate_update st ts"] v show ?case
    by (simp add: infer_loop_hxvf)
qed

lemma video_rate_update_size:
  "video_rate_update (st\<lparr>video_w := a, video_h := b\<rparr>) ts =
     (video_rate_update st ts)\<lparr>video_w := a, video_h := b\<rparr>"
  by (simp add: video_rate_update_def Let_def)

lemma foldl_video_rate_update_size:
  "foldl video_rate_update (st\<lparr>video_w := a, video_h := b\<rparr>) tss =
     (foldl video_rate_update st tss)\<lparr>video_w := a, video_h := b\<rparr>"
  by (induction tss arbitrary: st) (simp_all add: video_rate_update_size)

lemma video_rate_update_audio:
  "audio_avg_sample_rate (video_rate_update st ts) = audio_avg_sample_rate st"
  by (simp add: video_rate_update_def Let_def)

lemma foldl_video_rate_update_audio:
  "audio_avg_sample_rate (foldl video_rate_update st tss) = audio_avg_sample_rate st"
  by (induction tss arbitrary: st) (simp_all add: video_rate_update_audio)

lemma extract_loop_video_frames:
  assumes "pending st acc" and "\<forall>(ts, pl)\<in>set vs. 5 \<le> length pl"
    and "length acc + length (video_frames vs) < 2 ^ 31"
    and "only_video (written st)"
  shows "\<exists>st' acc'. extract_loop mx ist a (file_at pre (video_frames vs @ rest)) st =
                      extract_loop mx ist a (file_at (pre @ video_frames vs) rest) st'
           \<and> pending st' acc' \<and> only_video (written st')"
  using assms
proof (induction vs arbitrary: pre st acc)
  case Nil
  then show ?case by auto
next
  case (Cons v vs)
  obtain ts pl where v: "v = (ts, pl)"
    by (cases v)
  from Cons.prems(2,3) v have pl: "5 \<le> length pl" "length acc + length pl < 2 ^ 31"
    by simp_all
  from extract_loop_hxvf_pending [OF Cons.prems(1) pl, of mx ist a pre ts
         "video_frames vs @ rest"]
  obtain st1 where
    l1: "extract_loop mx ist a (file_at pre (hxvf_packet ts pl @ video_frames vs @ rest)) st =
         extract_loop mx ist a (file_at (pre @ hxvf_packet ts pl) (video_frames vs @ rest)) st1"
    and r1: "if is_parameter_set pl then
                pending st1 (acc @ pl) \<and> written st1 = written st
              else
                pending st1 []
                \<and> written st1 = written st @
                     [\<lparr>data = map Some (acc @ pl), stream_index = Video,
                       pts = rescale_ts (uint ts - video_ts_initial ist) (v_time_base mx)\<rparr>]"
    by blast
  define acc1 where "acc1 = (if is_parameter_set pl then acc @ pl else [])"
  from r1 have p1: "pending st1 acc1"
    by (simp add: acc1_def split: if_splits)
  from r1 Cons.prems(4) have w1: "only_video (written st1)"
    by (auto simp: only_video_def split: if_splits)
  from Cons.prems(3) v have b1: "length acc1 + length (video_frames vs) < 2 ^ 31"
    by (simp add: acc1_def)
  from Cons.prems(2) have f1: "\<forall>(ts, pl)\<in>set vs. 5 \<le> length pl"
    by simp
  from Cons.IH [OF p1 f1 b1 w1, of "pre @ hxvf_packet ts pl"] l1 v show ?case
    by auto
qed

lemma main_video_only:
  assumes "list_all (\<lambda>(ts, pl). 5 \<le> length pl) vs"
    and "length (video_frames vs) < 2 ^ 31"
    and "0 < video_avg_frame_rate (foldl video_rate_update infer_init (map fst vs))"
  shows "status (main skip_audio mx (hxvs_packet w h @ video_frames vs @ hxfi_packet)) = None
         \<and> new_streams (main skip_audio mx (hxvs_packet w h @ video_frames vs @ hxfi_packet))
             = [Video]
         \<and> only_video (frames (main skip_audio mx (hxvs_packet w h @ video_frames vs @ hxfi_packet)))"
proof -
  let ?end = "bytes32 HXFI @ replicate 16 0"
  let ?input = "hxvs_packet w h @ video_frames vs @ ?end"
  let ?ist = "(foldl video_rate_update infer_init (map fst vs))
                \<lparr>video_w := Some (sint w), video_h := Some (sint h)\<rparr>"
  have small: "length (video_frames vs) < 2 ^ 32"
    using assms(2) by simp
  have inf: "infer_loop (fopen ?input) infer_init =
               Inr (file_at (hxvs_packet w h @ video_frames vs @ bytes32 HXFI) (replicate 16 0),
                    ?ist)"
    by (simp add: fopen_file_at infer_loop_hxvs infer_loop_video_frames [OF small]
          infer_loop_hxfi foldl_video_rate_update_size)
  have rate: "\<not> video_avg_frame_rate ?ist \<le> 0" "audio_avg_sample_rate ?ist \<le> 0"
    using assms(3) by (simp_all add: foldl_video_rate_update_audio infer_init_def)
  have "only_video (written extract_init)"
    "length ([] :: byte list) + length (video_frames vs) < 2 ^ 31"
    using assms(2) by (simp_all add: only_video_def extract_init_def)
  moreover have "\<forall>(ts, pl)\<in>set vs. 5 \<le> length pl"
    using assms(1) by (simp add: list_all_iff)
  ultimately have "\<exists>st' acc'.
      extract_loop mx ?ist False (file_at (hxvs_packet w h) (video_frames vs @ ?end))
        extract_init
      = extract_loop mx ?ist False (file_at (hxvs_packet w h @ video_frames vs) ?end) st'
      \<and> pending st' acc' \<and> only_video (written st')"
    using extract_loop_video_frames [OF pending_init, of vs mx ?ist False
         "hxvs_packet w h" ?end]
    by blast
  then
  obtain st' acc' where
    "extract_loop mx ?ist False (file_at (hxvs_packet w h) (video_frames vs @ ?end))
       extract_init
     = extract_loop mx ?ist False (file_at (hxvs_packet w h @ video_frames vs) ?end) st'"
    and "only_video (written st')"
    by auto
  then have ext: "extract_loop mx ?ist False (file_at [] ?input) extract_init = (None, st')"
    "only_video (written st')"
    by (simp_all add: extract_loop_hxvs extract_loop_hxfi)
  have "status (main skip_audio mx ?input) = None
         \<and> new_streams (main skip_audio mx ?input) = [Video]
         \<and> only_video (frames (main skip_audio mx ?input))"
    using rate ext
    by (simp add: main_def inf fseek_set0_file_at Let_def)
  then show ?thesis
    by (simp add: hxfi_packet_def)
qed


text \<open>
  A whole run on video frames none of which is a parameter set: one packet is written per
  frame, with the payload of the frame, stamped with the raw timestamp of the frame minus
  the raw timestamp of the first frame, rescaled to the time base of the video stream.
\<close>

definition video_packet_of :: "muxer \<Rightarrow> int \<Rightarrow> u32 \<times> byte list \<Rightarrow> AVPacket" where
  "video_packet_of mx initial v =
     \<lparr>data = map Some (snd v), stream_index = Video,
      pts = rescale_ts (uint (fst v) - initial) (v_time_base mx)\<rparr>"

lemma extract_loop_access_units:
  assumes "pending st []"
    and "list_all (\<lambda>(ts, pl). 5 \<le> length pl \<and> \<not> is_parameter_set pl) vs"
    and "length (video_frames vs) < 2 ^ 31"
  shows "\<exists>st'. extract_loop mx ist a (file_at pre (video_frames vs @ rest)) st =
                 extract_loop mx ist a (file_at (pre @ video_frames vs) rest) st'
           \<and> pending st' []
           \<and> written st' = written st @ map (video_packet_of mx (video_ts_initial ist)) vs"
  using assms
proof (induction vs arbitrary: pre st)
  case Nil
  then show ?case by auto
next
  case (Cons v vs)
  obtain ts pl where v: "v = (ts, pl)"
    by (cases v)
  from Cons.prems(2,3) v have pl: "5 \<le> length pl" "length ([] :: byte list) + length pl < 2 ^ 31"
    and au: "\<not> is_parameter_set pl"
    by simp_all
  from extract_loop_hxvf_pending [OF Cons.prems(1) pl, of mx ist a pre ts
         "video_frames vs @ rest"] au
  obtain st1 where
    l1: "extract_loop mx ist a (file_at pre (hxvf_packet ts pl @ video_frames vs @ rest)) st =
         extract_loop mx ist a (file_at (pre @ hxvf_packet ts pl) (video_frames vs @ rest)) st1"
    and p1: "pending st1 []"
    and w1: "written st1 = written st @
                     [\<lparr>data = map Some pl, stream_index = Video,
                       pts = rescale_ts (uint ts - video_ts_initial ist) (v_time_base mx)\<rparr>]"
    by auto
  from Cons.prems(2,3) v
  have f1: "list_all (\<lambda>(ts, pl). 5 \<le> length pl \<and> \<not> is_parameter_set pl) vs"
    and b1: "length (video_frames vs) < 2 ^ 31"
    by simp_all
  from Cons.IH [OF p1 f1 b1, of "pre @ hxvf_packet ts pl"] l1 w1 v show ?case
    by (auto simp: video_packet_of_def)
qed

lemma foldl_video_rate_update_initial:
  "video_ts_initial st \<noteq> - 1 \<Longrightarrow>
   video_ts_initial (foldl video_rate_update st tss) = video_ts_initial st"
  by (induction tss arbitrary: st) (simp_all add: video_rate_update_def Let_def)

lemma video_ts_initial_first:
  "video_ts_initial (foldl video_rate_update infer_init (ts # tss)) = uint ts"
proof -
  have "0 \<le> uint ts"
    by simp
  then have "uint ts \<noteq> - 1"
    by linarith
  then have "video_ts_initial (video_rate_update infer_init ts) \<noteq> - 1"
    "video_ts_initial (video_rate_update infer_init ts) = uint ts"
    by (simp_all add: video_rate_update_def infer_init_def)
  with foldl_video_rate_update_initial [of "video_rate_update infer_init ts" tss]
  show ?thesis by simp
qed

lemma main_access_units:
  assumes "list_all (\<lambda>(ts, pl). 5 \<le> length pl \<and> \<not> is_parameter_set pl) vs"
    and "length (video_frames vs) < 2 ^ 31"
    and "0 < video_avg_frame_rate (foldl video_rate_update infer_init (map fst vs))"
  shows "status (main skip_audio mx (hxvs_packet w h @ video_frames vs @ hxfi_packet)) = None
         \<and> frames (main skip_audio mx (hxvs_packet w h @ video_frames vs @ hxfi_packet))
           = map (video_packet_of mx (uint (fst (hd vs)))) vs"
proof -
  let ?end = "bytes32 HXFI @ replicate 16 0"
  let ?input = "hxvs_packet w h @ video_frames vs @ ?end"
  let ?ist = "(foldl video_rate_update infer_init (map fst vs))
                \<lparr>video_w := Some (sint w), video_h := Some (sint h)\<rparr>"
  have small: "length (video_frames vs) < 2 ^ 32"
    using assms(2) by simp
  have inf: "infer_loop (fopen ?input) infer_init =
               Inr (file_at (hxvs_packet w h @ video_frames vs @ bytes32 HXFI) (replicate 16 0),
                    ?ist)"
    by (simp add: fopen_file_at infer_loop_hxvs infer_loop_video_frames [OF small]
          infer_loop_hxfi foldl_video_rate_update_size)
  have rate: "\<not> video_avg_frame_rate ?ist \<le> 0" "audio_avg_sample_rate ?ist \<le> 0"
    using assms(3) by (simp_all add: foldl_video_rate_update_audio infer_init_def)
  have "vs \<noteq> []"
    using assms(3) by (auto simp: infer_init_def)
  then have ini: "video_ts_initial ?ist = uint (fst (hd vs))"
    using video_ts_initial_first [of "fst (hd vs)" "map fst (tl vs)"]
    by (cases vs) simp_all
  from extract_loop_access_units [OF pending_init assms(1,2), of mx ?ist False
         "hxvs_packet w h" ?end]
  obtain st' where
    "extract_loop mx ?ist False (file_at (hxvs_packet w h) (video_frames vs @ ?end))
       extract_init
     = extract_loop mx ?ist False (file_at (hxvs_packet w h @ video_frames vs) ?end) st'"
    and "written st' = written extract_init @ map (video_packet_of mx (video_ts_initial ?ist)) vs"
    by blast
  then have ext: "extract_loop mx ?ist False (file_at [] ?input) extract_init = (None, st')"
    "written st' = map (video_packet_of mx (uint (fst (hd vs)))) vs"
    using ini by (simp_all add: extract_loop_hxvs extract_loop_hxfi extract_init_def)
  have "status (main skip_audio mx ?input) = None
         \<and> frames (main skip_audio mx ?input) = map (video_packet_of mx (uint (fst (hd vs)))) vs"
    using rate ext
    by (simp add: main_def inf fseek_set0_file_at Let_def)
  then show ?thesis
    by (simp add: hxfi_packet_def)
qed

section \<open>The end of the loops and the first two frames\<close>

text \<open>
  Two facts about the first loop.  It never sees the end-of-file indicator raised: every
  read that comes up short ends the run, so the loop returns only through the end marker,
  and a run that returns 0 has read the tag \<open>HXFI\<close> somewhere in its input.  And for two
  video frames at raw timestamps \<open>t0\<close> and \<open>t0 + d\<close> the rate it computes is
  \<open>1000 / (d - t0)\<close> when \<open>t0 < d\<close> and none otherwise, which is \<open>1000 / d\<close> only for
  \<open>t0 = 0\<close>.
\<close>

lemma fread_complete_eof:
  assumes "fread fp n = (got, fp')" and "length got = n"
  shows "f_eof fp' = f_eof fp"
  using assms by (auto simp: fread_def Let_def)

lemma infer_step_keeps_eof_down:
  assumes "infer_step fp st = Inr (fp', st', h)" and "\<not> f_eof fp"
  shows "\<not> f_eof fp'"
proof -
  obtain hdr fp1 where r1: "fread fp 4 = (hdr, fp1)"
    by (cases "fread fp 4")
  with assms have len: "length hdr = 4"
    by (auto simp: infer_step_def split: if_splits)
  from fread_complete_eof [OF r1 len] assms(2) have e1: "\<not> f_eof fp1"
    by simp
  obtain d12 fp12 where r12: "fread fp1 12 = (d12, fp12)"
    by (cases "fread fp1 12")
  obtain d16 fp16 where r16: "fread fp1 16 = (d16, fp16)"
    by (cases "fread fp1 16")
  have e12: "length d12 = 12 \<Longrightarrow> \<not> f_eof fp12"
    using fread_complete_eof [OF r12] e1 by simp
  have e16: "length d16 = 16 \<Longrightarrow> \<not> f_eof fp16"
    using fread_complete_eof [OF r16] e1 by simp
  from assms(1) r1 len r12 r16 e1 e12 e16 show ?thesis
    by (auto simp: infer_step_def Let_def sizeof_HXVSFrame_t_def sizeof_HXVFFrame_t_def
                   sizeof_HXAFFrame_t_def fseek_cur_def
             split: if_splits option.splits)
qed

lemma infer_step_end_marker:
  assumes "infer_step fp st = Inr (fp', st', True)"
  shows "f_bytes fp' = f_bytes fp \<and> f_pos fp' = f_pos fp + 4
         \<and> f_pos fp + 4 \<le> length (f_bytes fp)
         \<and> le32 (take 4 (drop (f_pos fp) (f_bytes fp))) = HXFI"
proof -
  obtain hdr fp1 where r1: "fread fp 4 = (hdr, fp1)"
    by (cases "fread fp 4")
  with assms have len: "length hdr = 4"
    by (auto simp: infer_step_def split: if_splits)
  note f = fread_facts [OF r1] fread_full [OF r1 len]
  from assms r1 len have "le32 hdr = HXFI \<and> fp' = fp1"
    by (auto simp: infer_step_def Let_def split: if_splits option.splits prod.splits)
  with f len show ?thesis
    by simp
qed

text \<open>Where a stream has an end marker: the tag \<open>HXFI\<close> in the four bytes before \<open>p\<close>.\<close>

definition end_marker_before :: "byte list \<Rightarrow> nat \<Rightarrow> bool" where
  "end_marker_before bs p \<longleftrightarrow>
     4 \<le> p \<and> p \<le> length bs \<and> le32 (take 4 (drop (p - 4) bs)) = HXFI"

lemma infer_loop_returns_after_end_marker:
  "infer_loop fp st = Inr (fp', st') \<Longrightarrow> \<not> f_eof fp \<Longrightarrow>
   f_bytes fp' = f_bytes fp \<and> end_marker_before (f_bytes fp) (f_pos fp')"
proof (induction fp st rule: infer_loop.induct)
  case (1 fp st)
  show ?case
  proof (cases "infer_step fp st")
    case (Inl e)
    with "1.prems" show ?thesis
      by (simp add: infer_loop.simps [of fp st])
  next
    case (Inr r)
    obtain fp1 st1 h where r: "r = (fp1, st1, h)"
      by (cases r)
    from Inr r have step: "infer_step fp st = Inr (fp1, st1, h)"
      by simp
    from infer_step_keeps_eof_down [OF step "1.prems"(2)] have e1: "\<not> f_eof fp1" .
    from infer_step_progress [OF step] have b1: "f_bytes fp1 = f_bytes fp"
      by simp
    show ?thesis
    proof (cases h)
      case True
      with step "1.prems"(1) have "fp' = fp1"
        by (simp add: infer_loop.simps [of fp st])
      with infer_step_end_marker [of fp st fp1 st1] step True show ?thesis
        by (simp add: end_marker_before_def)
    next
      case False
      with step e1 "1.prems"(1) have "infer_loop fp1 st1 = Inr (fp', st')"
        by (simp add: infer_loop.simps [of fp st] feof_def)
      with "1.IH" [of r fp1 "(st1, h)" st1 h] Inr r False e1 b1 show ?thesis
        by (simp add: feof_def)
    qed
  qed
qed

lemma main_returns_0_only_with_end_marker:
  assumes "status (main skip_audio mx input) = None"
  shows "\<exists>p. end_marker_before input p"
proof (cases "infer_loop (fopen input) infer_init")
  case (Inl e)
  with assms show ?thesis
    by (simp add: main_def)
next
  case (Inr r)
  obtain fp ist where r: "r = (fp, ist)"
    by (cases r)
  from infer_loop_returns_after_end_marker [of "fopen input" infer_init fp ist] Inr r
  have "end_marker_before input (f_pos fp)"
    by (simp add: fopen_def)
  then show ?thesis ..
qed


lemma two_frames_rate:
  assumes "uint t0 + uint d < 2 ^ 32"
  shows "video_avg_frame_rate (video_rate_update (video_rate_update infer_init t0) (t0 + d)) =
           (if uint t0 < uint d then 1000 / real_of_int (uint d - uint t0) else 0)"
proof -
  have sum: "uint (t0 + d) = uint t0 + uint d"
    using assms by (simp add: uint_add_lem [symmetric])
  have "0 \<le> uint t0"
    by simp
  then have set: "uint t0 \<noteq> - 1"
    by linarith
  show ?thesis
    using set by (simp add: video_rate_update_def infer_init_def Let_def sum)
qed

lemma two_frames_rate_right_iff:
  assumes "0 < uint d" and "uint t0 + uint d < 2 ^ 32"
  shows "video_avg_frame_rate (video_rate_update (video_rate_update infer_init t0) (t0 + d))
           = 1000 / real_of_int (uint d) \<longleftrightarrow> t0 = 0"
proof -
  define a where "a = uint t0"
  define b where "b = uint d"
  have ab: "0 \<le> a" "0 < b"
    using assms(1) by (simp_all add: a_def b_def)
  have z: "a = 0 \<longleftrightarrow> t0 = 0"
    by (simp add: a_def uint_0_iff)
  have rate: "video_avg_frame_rate
                (video_rate_update (video_rate_update infer_init t0) (t0 + d)) =
              (if a < b then 1000 / real_of_int (b - a) else 0)"
    unfolding a_def b_def by (rule two_frames_rate [OF assms(2)])
  have "(if a < b then 1000 / real_of_int (b - a) else 0) = 1000 / real_of_int b \<longleftrightarrow> a = 0"
  proof (cases "a < b")
    case True
    with ab have "0 < real_of_int (b - a)" "0 < real_of_int b"
      by simp_all
    then have "1000 / real_of_int (b - a) = 1000 / real_of_int b
               \<longleftrightarrow> real_of_int (b - a) = real_of_int b"
      by (simp add: field_simps)
    also have "\<dots> \<longleftrightarrow> a = 0"
      by simp
    finally show ?thesis
      using True by simp
  next
    case False
    with ab show ?thesis
      by auto
  qed
  with rate z show ?thesis
    unfolding b_def by simp
qed

section \<open>Sample inputs\<close>

text \<open>
  Three video payloads: a coded slice (NAL unit type 5), a sequence parameter set (NAL
  unit type 7) and a picture parameter set (NAL unit type 8), each after the four-byte
  start code.
\<close>

definition access_unit :: "byte list" where
  "access_unit = [0, 0, 0, 1, 0x65]"

definition parameter_set :: "byte list" where
  "parameter_set = [0, 0, 0, 1, 0x67]"

definition picture_parameter_set :: "byte list" where
  "picture_parameter_set = [0, 0, 0, 1, 0x68]"

text \<open>A container whose time bases are milliseconds.\<close>

definition mux_ms :: muxer where
  "mux_ms = \<lparr>v_time_base = (1, 1000), a_time_base = (1, 1000)\<rparr>"

text \<open>A video time base of a thirtieth of a second.\<close>

definition mux_thirtieths :: muxer where
  "mux_thirtieths = \<lparr>v_time_base = (1, 30), a_time_base = (1, 1000)\<rparr>"

lemma rescale_thirtieths:
  "rescale_ts 0 (1, 30) = 0" "rescale_ts 250 (1, 30) = 7" "rescale_ts 1000 (1, 30) = 30"
  by (simp_all add: eval_double)

lemma rescale_90k:
  "rescale_ts 40 (1, 90000) = 3600"
  by (simp add: eval_double)

text \<open>
  Quotients halfway between two integers go away from zero.  Then a negative relative
  timestamp, a time base with a component 0, and a frame more than \<open>2 ^ 31\<close> milliseconds
  after the first one, in a whole run.
\<close>

lemma rescale_halfway:
  "rescale_ts 1 (1, 500) = 1" "rescale_ts (- 1) (1, 500) = - 1" "rescale_ts 5 (1, 500) = 3"
  by (simp_all add: eval_double)

lemma rescale_negative: "rescale_ts (- 50) (1, 30) = - 2"
  by (simp add: eval_double)

lemma rescale_degenerate:
  "rescale_ts 5 (3, 0) = 0" "rescale_ts 5 (0, 5) = - (2 ^ 31)" "rescale_ts 0 (0, 0) = - (2 ^ 31)"
  by (simp_all add: eval_double)

lemma late_frame_timestamp:
  "map pts (frames (main False mux_ms
      (hxvf_packet 0 access_unit @ hxvf_packet 40 access_unit
         @ hxvf_packet 3000000000 access_unit @ hxfi_packet)))
   = [0, 40, - 2147483648]"
  by (simp add: main_def access_unit_def hxfi_packet_def eval_infer eval_extract mux_ms_def
        rescale_ts_ms)

text \<open>A size packet and two video frames 40 ms apart, with no end marker after them.\<close>

definition input_no_end :: "byte list" where
  "input_no_end =
     hxvs_packet 1920 1080 @ hxvf_packet 0 access_unit @ hxvf_packet 40 access_unit"

text \<open>
  A parameter set, an audio frame, the access unit the parameter set belongs to, a second
  audio frame and the end marker.
\<close>

definition input_interleaved :: "byte list" where
  "input_interleaved =
     hxvs_packet 1920 1080 @ hxvf_packet 0 parameter_set @ hxaf_packet 0 [0xAA, 0xBB]
       @ hxvf_packet 40 access_unit @ hxaf_packet 20 [0xCC, 0xDD] @ hxfi_packet"

text \<open>The same packets with both audio frames after the access unit.\<close>

definition input_in_order :: "byte list" where
  "input_in_order =
     hxvs_packet 1920 1080 @ hxvf_packet 0 parameter_set @ hxvf_packet 40 access_unit
       @ hxaf_packet 0 [0xAA, 0xBB] @ hxaf_packet 20 [0xCC, 0xDD] @ hxfi_packet"

text \<open>The video size and the frame rate the first pass ends with.\<close>

definition scanned_size :: "byte list \<Rightarrow> error + int option \<times> int option" where
  "scanned_size input =
     (case infer_loop (fopen input) infer_init of
        Inl e \<Rightarrow> Inl e
      | Inr (fp, st) \<Rightarrow> Inr (video_w st, video_h st))"

definition scanned_rate :: "byte list \<Rightarrow> error + real" where
  "scanned_rate input =
     (case infer_loop (fopen input) infer_init of
        Inl e \<Rightarrow> Inl e
      | Inr (fp, st) \<Rightarrow> Inr (video_avg_frame_rate st))"

section \<open>The claims\<close>

text \<open>
  C1.  The claim: an input whose packets are well formed and that has no end-of-stream
  packet makes both passes stop normally at the end of the file.  The program does not do
  that.  Its loops test \<^verbatim>\<open>feof\<close> after each packet, but the indicator is only raised
  by a read that comes up short, and every short read is an \<^verbatim>\<open>exit(1)\<close>; so after the
  last packet the loop goes round once more and the read of the next tag fails.  On a size
  packet followed by two video frames the run ends with \<open>TruncatedStream\<close> in the first
  pass and writes nothing; the second loop, started on the same input, ends the same way;
  the same input followed by the end marker is converted.  This is so for every input:
  a run returns 0 only when it has read an end marker
  (\<open>main_returns_0_only_with_end_marker\<close>).
\<close>

theorem C1_no_end_marker_fails:
  "main False mx input_no_end =
     \<lparr>status = Some TruncatedStream, new_streams = [], frames = []\<rparr>
   \<and> fst (extract_loop mx ist a (fopen input_no_end) extract_init) = Some TruncatedStream
   \<and> status (main False mx (input_no_end @ hxfi_packet)) = None"
proof -
  have "main False mx input_no_end =
          \<lparr>status = Some TruncatedStream, new_streams = [], frames = []\<rparr>"
    by (simp add: main_def input_no_end_def access_unit_def eval_infer)
  moreover
  have "fst (extract_loop mx ist a (fopen input_no_end) extract_init) = Some TruncatedStream"
    by (simp add: input_no_end_def access_unit_def eval_extract)
  moreover
  have "status (main False mx (input_no_end @ hxfi_packet)) = None"
    by (simp add: main_def input_no_end_def access_unit_def hxfi_packet_def eval_infer
          eval_extract)
  ultimately show ?thesis by simp
qed

text \<open>
  C2.  The claim: bytes held in the buffer for a parameter set that waits for its access
  unit are not altered by another packet, so that with an audio frame between the two the
  video packet is still the parameter set followed by the access unit.  The program reads
  the audio payload into the same buffer, at offset 0, while \<^verbatim>\<open>packet_buffer_offset\<close>
  still counts the parameter set.  On \<open>input_interleaved\<close> the one video packet written
  starts with the two audio bytes \<open>AA BB\<close> where the start of the parameter set
  \<open>00 00\<close> should be.  With the same packets in another order, the audio frames after
  the access unit, or with audio switched off, the video packet is the parameter set
  followed by the access unit.
\<close>

theorem C2_audio_overwrites_parameter_set:
  "map data (filter (\<lambda>p. stream_index p = Video) (frames (main False mx input_interleaved)))
     = [map Some ([0xAA, 0xBB, 0, 1, 0x67] @ access_unit)]
   \<and> [0xAA, 0xBB, 0, 1, 0x67] @ access_unit \<noteq> parameter_set @ access_unit
   \<and> map data (filter (\<lambda>p. stream_index p = Video) (frames (main False mx input_in_order)))
     = [map Some (parameter_set @ access_unit)]
   \<and> map data (filter (\<lambda>p. stream_index p = Video) (frames (main True mx input_interleaved)))
     = [map Some (parameter_set @ access_unit)]"
  by (simp add: main_def input_interleaved_def input_in_order_def access_unit_def
        parameter_set_def hxfi_packet_def eval_infer eval_extract)

text \<open>
  C3.  The claim: the first pass treats a packet with the alternate size tag \<open>HXVT\<close> like
  one with \<open>HXVS\<close> and records its width and height.  The header file declares the tag
  and its structure, but the \<^verbatim>\<open>switch\<close> has no case for it: the tag falls to
  \<^verbatim>\<open>default\<close>, nothing is recorded, and the twelve bytes of the structure are read as
  three more tags.  With \<open>HXVT\<close> the size stays unset; with \<open>HXVS\<close> the same input gives
  1920 by 1080.
\<close>

theorem C3_alternate_size_tag_not_recognized:
  "scanned_size (hxvt_packet 1920 1080 @ hxvf_packet 0 access_unit
                   @ hxvf_packet 40 access_unit @ hxfi_packet) = Inr (None, None)
   \<and> scanned_size (hxvs_packet 1920 1080 @ hxvf_packet 0 access_unit
                   @ hxvf_packet 40 access_unit @ hxfi_packet) = Inr (Some 1920, Some 1080)"
proof -
  have skip: "infer_loop (file_at pre (bytes32 tag @ rest)) st =
                infer_loop (file_at (pre @ bytes32 tag) rest) st"
    if "tag = HXVT \<or> tag = 1920 \<or> tag = 1080 \<or> tag = 0" for tag pre rest st
    using that
    by (intro infer_loop_unknown) (auto simp: HXVS_def HXVT_def HXAF_def HXVF_def HXFI_def)
  have "scanned_size (hxvt_packet 1920 1080 @ hxvf_packet 0 access_unit
                   @ hxvf_packet 40 access_unit @ hxfi_packet) = Inr (None, None)"
    by (simp add: scanned_size_def hxvt_packet_def replicate_4_bytes32 access_unit_def
          hxfi_packet_def eval_infer skip)
  moreover
  have "scanned_size (hxvs_packet 1920 1080 @ hxvf_packet 0 access_unit
                   @ hxvf_packet 40 access_unit @ hxfi_packet) = Inr (Some 1920, Some 1080)"
    by (simp add: scanned_size_def access_unit_def hxfi_packet_def eval_infer)
  ultimately show ?thesis by simp
qed

text \<open>
  C4.  The claim: for video frames at a constant interval \<open>\<Delta>\<close>, whatever the first raw
  timestamp, the average frame rate is \<open>1000 / \<Delta>\<close> for any number of frames from two
  on.  The program sets \<^verbatim>\<open>video_ts_prev\<close> to the raw timestamp of the first frame and
  compares it with the relative timestamp of the second.  Two frames at 1000 and 1040
  give no rate at all (the rate stays 0 and the run ends with \<open>NoVideoDetected\<close>); the
  same frames at 0 and 40 give 25.  For two frames the rate is right only when the first
  raw timestamp is 0 (\<open>two_frames_rate_right_iff\<close>).
\<close>

theorem C4_rate_depends_on_first_timestamp:
  "scanned_rate (hxvf_packet 1000 access_unit @ hxvf_packet 1040 access_unit @ hxfi_packet)
     = Inr 0
   \<and> status (main False mx (hxvf_packet 1000 access_unit @ hxvf_packet 1040 access_unit
                                @ hxfi_packet)) = Some NoVideoDetected
   \<and> scanned_rate (hxvf_packet 0 access_unit @ hxvf_packet 40 access_unit @ hxfi_packet)
     = Inr 25"
  by (simp add: scanned_rate_def main_def access_unit_def hxfi_packet_def eval_infer
        eval_extract)

text \<open>
  C5.  In the second pass the video frames parameter set, parameter set, access unit are
  written as one packet: its bytes are the three payloads in order and its timestamp is
  that of the access unit, minus the first video timestamp, rescaled to the time base of
  the video stream.  Two access units are written as two packets.  The payloads are any
  byte sequences of at least five bytes (start code and NAL header), together shorter
  than \<open>2\<^sup>3\<^sup>1\<close> bytes; the pass runs from the start of the input to the end marker.
  The rescaling of a relative timestamp \<open>rel\<close>, in milliseconds, to a time base
  \<open>num / den\<close> of a second is the \<^verbatim>\<open>double\<close> computation of the program; for a time base
  with positive components, and as long as \<open>rel * den / (1000 * num)\<close> fits in an
  \<^verbatim>\<open>int\<close>, its result is an integer at most \<open>1 / 2 + 2 ^ - 20\<close> from that quotient.
\<close>

theorem C5_coalescing:
  assumes "5 \<le> length pa" "5 \<le> length pb" "5 \<le> length pc"
    and "length pa + length pb + length pc < 2 ^ 31"
  shows "(is_parameter_set pa \<and> is_parameter_set pb \<and> \<not> is_parameter_set pc \<longrightarrow>
            apsnd written
              (extract_loop mx ist a
                 (fopen (hxvf_packet ta pa @ hxvf_packet tb pb @ hxvf_packet tc pc @ hxfi_packet))
                 extract_init)
            = (None,
               [\<lparr>data = map Some (pa @ pb @ pc), stream_index = Video,
                 pts = rescale_ts (uint tc - video_ts_initial ist) (v_time_base mx)\<rparr>]))
       \<and> (\<not> is_parameter_set pa \<and> \<not> is_parameter_set pb \<longrightarrow>
            apsnd written
              (extract_loop mx ist a
                 (fopen (hxvf_packet ta pa @ hxvf_packet tb pb @ hxfi_packet)) extract_init)
            = (None,
               [\<lparr>data = map Some pa, stream_index = Video,
                 pts = rescale_ts (uint ta - video_ts_initial ist) (v_time_base mx)\<rparr>,
                \<lparr>data = map Some pb, stream_index = Video,
                 pts = rescale_ts (uint tb - video_ts_initial ist) (v_time_base mx)\<rparr>]))
       \<and> (0 < num \<and> num < 2 ^ 31 \<and> 0 < den \<and> den < 2 ^ 31 \<and> \<bar>rel\<bar> < 2 ^ 53
            \<and> \<bar>rel\<bar> * den \<le> 2147483647 * (1000 * num) \<longrightarrow>
            \<bar>real_of_int (rescale_ts rel (num, den))
               - real_of_int (rel * den) / real_of_int (1000 * num)\<bar> \<le> 1 / 2 + 1 / 2 ^ 20)"
proof (intro conjI impI)
  assume "0 < num \<and> num < 2 ^ 31 \<and> 0 < den \<and> den < 2 ^ 31 \<and> \<bar>rel\<bar> < 2 ^ 53
            \<and> \<bar>rel\<bar> * den \<le> 2147483647 * (1000 * num)"
  then show "\<bar>real_of_int (rescale_ts rel (num, den))
               - real_of_int (rel * den) / real_of_int (1000 * num)\<bar> \<le> 1 / 2 + 1 / 2 ^ 20"
    using rescale_ts_near [of num den rel] by blast
next
  assume ps: "is_parameter_set pa \<and> is_parameter_set pb \<and> \<not> is_parameter_set pc"
  from coalesce_three [OF assms, of extract_init mx ist a "[]" ta tb tc hxfi_packet] ps pending_init
  obtain st' where
    "extract_loop mx ist a
       (file_at [] (hxvf_packet ta pa @ hxvf_packet tb pb @ hxvf_packet tc pc @ hxfi_packet))
       extract_init
     = extract_loop mx ist a
         (file_at (hxvf_packet ta pa @ hxvf_packet tb pb @ hxvf_packet tc pc) hxfi_packet) st'"
    and "written st' =
           [\<lparr>data = map Some (pa @ pb @ pc), stream_index = Video,
             pts = rescale_ts (uint tc - video_ts_initial ist) (v_time_base mx)\<rparr>]"
    by (auto simp: extract_init_def)
  then show "apsnd written
              (extract_loop mx ist a
                 (fopen (hxvf_packet ta pa @ hxvf_packet tb pb @ hxvf_packet tc pc @ hxfi_packet))
                 extract_init)
            = (None,
               [\<lparr>data = map Some (pa @ pb @ pc), stream_index = Video,
                 pts = rescale_ts (uint tc - video_ts_initial ist) (v_time_base mx)\<rparr>])"
    by (simp add: fopen_file_at hxfi_packet_def extract_loop_hxfi)
next
  assume au: "\<not> is_parameter_set pa \<and> \<not> is_parameter_set pb"
  have "length pa < 2 ^ 31" "length pb < 2 ^ 31"
    using assms(4) by simp_all
  from separate_two [OF assms(1,2) this, of extract_init mx ist a "[]" ta tb hxfi_packet] au
    pending_init
  obtain st' where
    "extract_loop mx ist a
       (file_at [] (hxvf_packet ta pa @ hxvf_packet tb pb @ hxfi_packet)) extract_init
     = extract_loop mx ist a (file_at (hxvf_packet ta pa @ hxvf_packet tb pb) hxfi_packet) st'"
    and "written st' =
           [\<lparr>data = map Some pa, stream_index = Video,
             pts = rescale_ts (uint ta - video_ts_initial ist) (v_time_base mx)\<rparr>,
            \<lparr>data = map Some pb, stream_index = Video,
             pts = rescale_ts (uint tb - video_ts_initial ist) (v_time_base mx)\<rparr>]"
    by (auto simp: extract_init_def)
  then show "apsnd written
              (extract_loop mx ist a
                 (fopen (hxvf_packet ta pa @ hxvf_packet tb pb @ hxfi_packet)) extract_init)
            = (None,
               [\<lparr>data = map Some pa, stream_index = Video,
                 pts = rescale_ts (uint ta - video_ts_initial ist) (v_time_base mx)\<rparr>,
                \<lparr>data = map Some pb, stream_index = Video,
                 pts = rescale_ts (uint tb - video_ts_initial ist) (v_time_base mx)\<rparr>])"
    by (simp add: fopen_file_at hxfi_packet_def extract_loop_hxfi)
qed

theorem C5_coalescing_witness:
  "5 \<le> length parameter_set \<and> 5 \<le> length picture_parameter_set \<and> 5 \<le> length access_unit
   \<and> length parameter_set + length picture_parameter_set + length access_unit < 2 ^ 31
   \<and> is_parameter_set parameter_set \<and> is_parameter_set picture_parameter_set
   \<and> \<not> is_parameter_set access_unit
   \<and> apsnd written
        (extract_loop mux_thirtieths (infer_init\<lparr>video_ts_initial := 100\<rparr>) False
           (fopen (hxvf_packet 100 parameter_set @ hxvf_packet 100 picture_parameter_set
                     @ hxvf_packet 350 access_unit @ hxfi_packet))
           extract_init)
      = (None,
         [\<lparr>data = map Some (parameter_set @ picture_parameter_set @ access_unit),
           stream_index = Video, pts = 7\<rparr>])
   \<and> apsnd written
        (extract_loop mux_thirtieths (infer_init\<lparr>video_ts_initial := 100\<rparr>) False
           (fopen (hxvf_packet 350 access_unit @ hxvf_packet 1100 access_unit @ hxfi_packet))
           extract_init)
      = (None,
         [\<lparr>data = map Some access_unit, stream_index = Video, pts = 7\<rparr>,
          \<lparr>data = map Some access_unit, stream_index = Video, pts = 30\<rparr>])
   \<and> (0 :: int) < 1 \<and> (1 :: int) < 2 ^ 31 \<and> (0 :: int) < 30 \<and> (30 :: int) < 2 ^ 31
   \<and> \<bar>250 :: int\<bar> < 2 ^ 53 \<and> \<bar>250 :: int\<bar> * 30 \<le> 2147483647 * (1000 * 1)
   \<and> rescale_ts 250 (1, 30) = 7
   \<and> \<bar>real_of_int (rescale_ts 250 (1, 30)) - real_of_int (250 * 30) / real_of_int (1000 * 1)\<bar>
        \<le> 1 / 2 + 1 / 2 ^ 20"
proof -
  have h: "5 \<le> length parameter_set" "5 \<le> length picture_parameter_set"
    "5 \<le> length access_unit"
    "length parameter_set + length picture_parameter_set + length access_unit < 2 ^ 31"
    by (simp_all add: parameter_set_def picture_parameter_set_def access_unit_def)
  have k: "5 \<le> length access_unit" "5 \<le> length access_unit" "5 \<le> length access_unit"
    "length access_unit + length access_unit + length access_unit < 2 ^ 31"
    by (simp_all add: access_unit_def)
  have t: "is_parameter_set parameter_set" "is_parameter_set picture_parameter_set"
    "\<not> is_parameter_set access_unit"
    by (simp_all add: is_parameter_set_def parameter_set_def picture_parameter_set_def
          access_unit_def)
  show ?thesis
    using h t
      C5_coalescing [OF h, where mx = mux_thirtieths and a = False and ta = 100 and tb = 100
        and tc = 350 and ist = "infer_init\<lparr>video_ts_initial := 100\<rparr>"
        and num = 1 and den = 30 and rel = 250]
      C5_coalescing [OF k, where mx = mux_thirtieths and a = False and ta = 350 and tb = 1100
        and tc = 0 and ist = "infer_init\<lparr>video_ts_initial := 100\<rparr>"
        and num = 1 and den = 30 and rel = 250]
    by (simp add: mux_thirtieths_def rescale_thirtieths)
qed

text \<open>
  C6.  The claim: the first packet of a stream has relative timestamp 0 and every later
  one a relative timestamp that is a non-negative integer, its raw timestamp minus that of
  the first packet.  The program computes the difference on \<^verbatim>\<open>long\<close>, so a frame whose
  raw timestamp is below that of the first frame has a negative relative timestamp: video
  frames at 100, 50 and 200 are written with the timestamps 0, -50 and 100.
\<close>

theorem C6_negative_relative_timestamp:
  "map pts (frames (main False mux_ms
      (hxvf_packet 100 access_unit @ hxvf_packet 50 access_unit @ hxvf_packet 200 access_unit
         @ hxfi_packet)))
   = [0, - 50, 100]"
  by (simp add: main_def access_unit_def hxfi_packet_def eval_infer eval_extract mux_ms_def
        rescale_ts_ms)

text \<open>
  C6, as it holds.  For video and for audio, the first frame the first pass sees sets
  the reference to its raw timestamp and later frames leave it as it is; for each later
  frame that pass computes the relative timestamp as the raw timestamp minus the
  reference, a signed integer that is non-negative exactly when the raw timestamp is not
  below the reference.  The second pass stamps each packet it writes with the raw
  timestamp minus the reference, rescaled to the time base of the stream by the
  \<^verbatim>\<open>double\<close> computation of the program and converted to \<^verbatim>\<open>int\<close>.  For a time base
  with positive components this is 0 when the difference is 0, and it is non-negative when
  the difference is non-negative and the rescaled value fits in an \<^verbatim>\<open>int\<close>.  For a
  time base of milliseconds it is the difference itself when that fits in an \<^verbatim>\<open>int\<close>,
  and \<open>- (2 ^ 31)\<close> when it does not.  (What the first pass keeps as previous timestamp
  for the first frame is left out here, see C4.)  For a whole run on video frames,
  \<open>main_access_units\<close> gives the packets written: the reference is the raw timestamp of
  the first frame.
\<close>

theorem C6_relative_timestamps:
  "(video_ts_initial ist = - 1 \<longrightarrow> video_ts_initial (video_rate_update ist ts) = uint ts)
   \<and> (video_ts_initial ist \<noteq> - 1 \<longrightarrow>
        video_ts_initial (video_rate_update ist ts) = video_ts_initial ist
        \<and> video_ts_prev (video_rate_update ist ts) = uint ts - video_ts_initial ist
        \<and> (0 \<le> video_ts_prev (video_rate_update ist ts) \<longleftrightarrow> video_ts_initial ist \<le> uint ts))
   \<and> (audio_ts_initial ist = - 1 \<longrightarrow>
        audio_ts_initial (audio_rate_update ist len ts) = uint ts)
   \<and> (audio_ts_initial ist \<noteq> - 1 \<longrightarrow>
        audio_ts_initial (audio_rate_update ist len ts) = audio_ts_initial ist
        \<and> audio_ts_prev (audio_rate_update ist len ts) = uint ts - audio_ts_initial ist
        \<and> (0 \<le> audio_ts_prev (audio_rate_update ist len ts) \<longleftrightarrow> audio_ts_initial ist \<le> uint ts))
   \<and> (buffer_ok st \<and> 5 \<le> length pl \<and> packet_buffer_offset st + int (length pl) < 2 ^ 31
        \<and> \<not> is_parameter_set pl \<longrightarrow>
        (\<exists>st' p. extract_step mx ist a (file_at pre (hxvf_packet ts pl @ rest)) st
                   = Inr (file_at (pre @ hxvf_packet ts pl) rest, st', False)
           \<and> written st' = written st @ [p] \<and> stream_index p = Video
           \<and> pts p = rescale_ts (uint ts - video_ts_initial ist) (v_time_base mx)))
   \<and> (0 < length au \<and> length au < 2 ^ 31 \<longrightarrow>
        (\<exists>st' p. extract_step mx ist True (file_at pre (hxaf_packet ts au @ rest)) st
                   = Inr (file_at (pre @ hxaf_packet ts au) rest, st', False)
           \<and> written st' = written st @ [p] \<and> stream_index p = Audio
           \<and> pts p = rescale_ts (uint ts - audio_ts_initial ist) (a_time_base mx)))
   \<and> (0 < num \<and> num < 2 ^ 31 \<and> 0 < den \<and> den < 2 ^ 31 \<longrightarrow> rescale_ts 0 (num, den) = 0)
   \<and> (0 < num \<and> num < 2 ^ 31 \<and> 0 < den \<and> den < 2 ^ 31 \<and> 0 \<le> rel \<and> rel < 2 ^ 53
        \<and> rel * den \<le> 2147483647 * (1000 * num) \<longrightarrow>
        0 \<le> rescale_ts rel (num, den))
   \<and> (\<bar>rel\<bar> < 2 ^ 53 \<longrightarrow>
        rescale_ts rel (1, 1000)
          = (if - (2 ^ 31) \<le> rel \<and> rel < 2 ^ 31 then rel else - (2 ^ 31)))"
proof -
  have v: "(video_ts_initial ist = - 1 \<longrightarrow> video_ts_initial (video_rate_update ist ts) = uint ts)
   \<and> (video_ts_initial ist \<noteq> - 1 \<longrightarrow>
        video_ts_initial (video_rate_update ist ts) = video_ts_initial ist
        \<and> video_ts_prev (video_rate_update ist ts) = uint ts - video_ts_initial ist
        \<and> (0 \<le> video_ts_prev (video_rate_update ist ts) \<longleftrightarrow> video_ts_initial ist \<le> uint ts))"
    by (simp add: video_rate_update_def Let_def)
  have au: "(audio_ts_initial ist = - 1 \<longrightarrow>
        audio_ts_initial (audio_rate_update ist len ts) = uint ts)
   \<and> (audio_ts_initial ist \<noteq> - 1 \<longrightarrow>
        audio_ts_initial (audio_rate_update ist len ts) = audio_ts_initial ist
        \<and> audio_ts_prev (audio_rate_update ist len ts) = uint ts - audio_ts_initial ist
        \<and> (0 \<le> audio_ts_prev (audio_rate_update ist len ts) \<longleftrightarrow> audio_ts_initial ist \<le> uint ts))"
    by (simp add: audio_rate_update_def Let_def)
  have xv: "buffer_ok st \<and> 5 \<le> length pl \<and> packet_buffer_offset st + int (length pl) < 2 ^ 31
        \<and> \<not> is_parameter_set pl \<longrightarrow>
        (\<exists>st' p. extract_step mx ist a (file_at pre (hxvf_packet ts pl @ rest)) st
                   = Inr (file_at (pre @ hxvf_packet ts pl) rest, st', False)
           \<and> written st' = written st @ [p] \<and> stream_index p = Video
           \<and> pts p = rescale_ts (uint ts - video_ts_initial ist) (v_time_base mx))"
    using extract_step_hxvf_ok [of st pl mx ist a pre ts rest] by auto
  have xa: "0 < length au \<and> length au < 2 ^ 31 \<longrightarrow>
        (\<exists>st' p. extract_step mx ist True (file_at pre (hxaf_packet ts au @ rest)) st
                   = Inr (file_at (pre @ hxaf_packet ts au) rest, st', False)
           \<and> written st' = written st @ [p] \<and> stream_index p = Audio
           \<and> pts p = rescale_ts (uint ts - audio_ts_initial ist) (a_time_base mx))"
    using extract_step_hxaf_stream [of au mx ist pre ts rest st] by (auto simp: Let_def)
  from v au xv xa rescale_ts_zero [of num den] rescale_ts_nonneg [of num den rel]
    rescale_ts_ms [of rel]
  show ?thesis
    by blast
qed


theorem C6_relative_timestamps_witness:
  "video_ts_initial infer_init = - 1
   \<and> video_ts_initial (video_rate_update infer_init 100) = 100
   \<and> audio_ts_initial infer_init = - 1
   \<and> audio_ts_initial (audio_rate_update infer_init 6 100) = 100
   \<and> video_ts_initial (infer_init\<lparr>video_ts_initial := 100, audio_ts_initial := 100\<rparr>) \<noteq> - 1
   \<and> video_ts_prev
        (video_rate_update (infer_init\<lparr>video_ts_initial := 100, audio_ts_initial := 100\<rparr>) 350)
       = 250
   \<and> audio_ts_initial (infer_init\<lparr>video_ts_initial := 100, audio_ts_initial := 100\<rparr>) \<noteq> - 1
   \<and> audio_ts_prev
        (audio_rate_update (infer_init\<lparr>video_ts_initial := 100, audio_ts_initial := 100\<rparr>) 6 350)
       = 250
   \<and> buffer_ok extract_init \<and> 5 \<le> length access_unit
   \<and> packet_buffer_offset extract_init + int (length access_unit) < 2 ^ 31
   \<and> \<not> is_parameter_set access_unit
   \<and> (\<exists>st' p. extract_step mux_thirtieths
                   (infer_init\<lparr>video_ts_initial := 100, audio_ts_initial := 100\<rparr>)
                   True (file_at [] (hxvf_packet 350 access_unit @ hxfi_packet)) extract_init
                 = Inr (file_at ([] @ hxvf_packet 350 access_unit) hxfi_packet, st', False)
         \<and> written st' = written extract_init @ [p] \<and> stream_index p = Video \<and> pts p = 7)
   \<and> 0 < length [0xAA, 0xBB :: byte] \<and> length [0xAA, 0xBB :: byte] < 2 ^ 31
   \<and> (\<exists>st' p. extract_step mux_thirtieths
                   (infer_init\<lparr>video_ts_initial := 100, audio_ts_initial := 100\<rparr>)
                   True (file_at [] (hxaf_packet 350 [0xAA, 0xBB] @ hxfi_packet)) extract_init
                 = Inr (file_at ([] @ hxaf_packet 350 [0xAA, 0xBB]) hxfi_packet, st', False)
         \<and> written st' = written extract_init @ [p] \<and> stream_index p = Audio \<and> pts p = 250)
   \<and> (0 :: int) < 1 \<and> (1 :: int) < 2 ^ 31 \<and> (0 :: int) < 30 \<and> (30 :: int) < 2 ^ 31
   \<and> rescale_ts 0 (1, 30) = 0
   \<and> (0 :: int) \<le> 250 \<and> (250 :: int) < 2 ^ 53 \<and> (250 :: int) * 30 \<le> 2147483647 * (1000 * 1)
   \<and> 0 \<le> rescale_ts 250 (1, 30)
   \<and> \<bar>250 :: int\<bar> < 2 ^ 53 \<and> rescale_ts 250 (1, 1000) = 250
   \<and> \<bar>3000000000 :: int\<bar> < 2 ^ 53 \<and> rescale_ts 3000000000 (1, 1000) = - (2 ^ 31)"
proof -
  let ?ist = "infer_init\<lparr>video_ts_initial := 100, audio_ts_initial := 100\<rparr>"
  have a: "video_ts_initial infer_init = - 1" "audio_ts_initial infer_init = - 1"
    "video_ts_initial ?ist \<noteq> - 1" "audio_ts_initial ?ist \<noteq> - 1"
    by (simp_all add: infer_init_def)
  have b: "buffer_ok extract_init" "5 \<le> length access_unit"
    "packet_buffer_offset extract_init + int (length access_unit) < 2 ^ 31"
    "\<not> is_parameter_set access_unit"
    "0 < length [0xAA, 0xBB :: byte]" "length [0xAA, 0xBB :: byte] < 2 ^ 31"
    by (simp_all add: buffer_ok_def extract_init_def access_unit_def is_parameter_set_def)
  have c: "(0 :: int) < 1" "(1 :: int) < 2 ^ 31" "(0 :: int) < 30" "(30 :: int) < 2 ^ 31"
    "(0 :: int) \<le> 250" "(250 :: int) < 2 ^ 53" "(250 :: int) * 30 \<le> 2147483647 * (1000 * 1)"
    "\<bar>250 :: int\<bar> < 2 ^ 53" "\<bar>3000000000 :: int\<bar> < 2 ^ 53"
    by simp_all
  note first =
    C6_relative_timestamps [where ist = infer_init and ts = 100 and len = 6
      and st = extract_init and pl = access_unit and au = "[0xAA, 0xBB]" and num = 1
      and den = 30 and rel = 3000000000]
  note later =
    C6_relative_timestamps [where ist = ?ist and ts = 350 and len = 6
      and st = extract_init and pl = access_unit and au = "[0xAA, 0xBB]" and num = 1
      and den = 30 and rel = 250 and mx = mux_thirtieths and a = True and pre = "[]"
      and rest = hxfi_packet]
  have ms: "rescale_ts 250 (1, 1000) = 250" "rescale_ts 3000000000 (1, 1000) = - (2 ^ 31)"
    using later [THEN conjunct2, THEN conjunct2, THEN conjunct2, THEN conjunct2, THEN conjunct2,
        THEN conjunct2, THEN conjunct2, THEN conjunct2]
      first [THEN conjunct2, THEN conjunct2, THEN conjunct2, THEN conjunct2, THEN conjunct2,
        THEN conjunct2, THEN conjunct2, THEN conjunct2]
    by simp_all
  have d: "uint (100 :: u32) = 100" "uint (350 :: u32) - video_ts_initial ?ist = 250"
    "uint (350 :: u32) - audio_ts_initial ?ist = 250"
    "rescale_ts 250 (v_time_base mux_thirtieths) = 7"
    "rescale_ts 250 (a_time_base mux_thirtieths) = 250"
    by (simp_all add: infer_init_def mux_thirtieths_def ms rescale_thirtieths)
  from a b c d ms first later
  show ?thesis
    by (simp only:) blast
qed

text \<open>
  C7.  An input cut off inside a declared payload makes the second pass end with
  \<open>TruncatedStream\<close>, and no packet is written for the payload that is cut off: when the
  loop stands before a video frame header that declares \<open>len\<close> bytes and fewer follow, or
  before an audio frame header whose payload of \<open>len - 4\<close> bytes is not all there, it ends
  with that error and the variables, the list of written packets among them, are as they
  were before the header.  For an audio frame without an audio stream the payload is
  skipped by a seek and the error comes from the read of the next tag.  The first pass,
  which runs before, ends with the same error at the same place.
\<close>

theorem C7_truncated_payload:
  "(length rest < unat len \<longrightarrow>
      extract_loop mx ist a (file_at pre (hxvf_header len ts @ rest)) est
        = (Some TruncatedStream, est)
      \<and> infer_loop (file_at pre (hxvf_header len ts @ rest)) st = Inl TruncatedStream)
   \<and> (length rest < unat (len - 4) \<longrightarrow>
      extract_loop mx ist a (file_at pre (hxaf_header len ts @ rest)) est
        = (Some TruncatedStream, est)
      \<and> infer_loop (file_at pre (hxaf_header len ts @ rest)) st = Inl TruncatedStream)"
  by (simp add: extract_loop_hxvf_header_short extract_loop_hxaf_header_short
        infer_loop_hxvf_header_short infer_loop_hxaf_header_short)

theorem C7_truncated_payload_witness:
  "length [0, 0, 0 :: byte] < unat (5 :: u32)
   \<and> extract_loop mux_ms infer_init True
         (file_at (hxvf_packet 0 access_unit) (hxvf_header 5 40 @ [0, 0, 0])) extract_init
       = (Some TruncatedStream, extract_init)
   \<and> infer_loop (file_at (hxvf_packet 0 access_unit) (hxvf_header 5 40 @ [0, 0, 0])) infer_init
       = Inl TruncatedStream
   \<and> length [0xAA :: byte] < unat (6 - 4 :: u32)
   \<and> extract_loop mux_ms infer_init True
         (file_at (hxvf_packet 0 access_unit) (hxaf_header 6 40 @ [0xAA])) extract_init
       = (Some TruncatedStream, extract_init)
   \<and> infer_loop (file_at (hxvf_packet 0 access_unit) (hxaf_header 6 40 @ [0xAA])) infer_init
       = Inl TruncatedStream"
  using C7_truncated_payload [of "[0, 0, 0]" 5 mux_ms infer_init True "hxvf_packet 0 access_unit"
          40 extract_init infer_init]
    C7_truncated_payload [of "[0xAA]" 6 mux_ms infer_init True "hxvf_packet 0 access_unit"
          40 extract_init infer_init]
  by simp

text \<open>
  A whole run on an input that is cut off inside the payload of its second video frame.
\<close>

lemma truncated_run:
  "main False mx (hxvs_packet 1920 1080 @ hxvf_packet 0 access_unit @ hxvf_header 5 40 @ [0, 0, 0])
     = \<lparr>status = Some TruncatedStream, new_streams = [], frames = []\<rparr>"
  by (simp add: main_def access_unit_def eval_infer infer_loop_hxvf_header_short)

text \<open>
  C8.  After the first pass the run ends with \<open>NoVideoDetected\<close> exactly when that pass
  came to its end with a video frame rate that is not positive.  A sample rate that is not
  positive is not an error: the run goes on with the video stream alone, and every packet
  written is a video packet.  An input of a size packet, video frames and the end marker,
  with payloads of at least five bytes, shorter than \<open>2\<^sup>3\<^sup>1\<close> bytes and with timestamps
  that give a positive frame rate, is converted: the run returns 0, no audio stream is
  created and no audio packet is written.
\<close>

theorem C8_no_video_is_fatal_no_audio_is_not:
  "(status (main skip_audio mx input) = Some NoVideoDetected \<longleftrightarrow>
      (\<exists>fp ist. infer_loop (fopen input) infer_init = Inr (fp, ist)
         \<and> video_avg_frame_rate ist \<le> 0))
   \<and> (infer_loop (fopen input) infer_init = Inr (fp, ist)
        \<and> 0 < video_avg_frame_rate ist \<and> audio_avg_sample_rate ist \<le> 0 \<longrightarrow>
        new_streams (main skip_audio mx input) = [Video]
        \<and> only_video (frames (main skip_audio mx input)))
   \<and> (list_all (\<lambda>(ts, pl). 5 \<le> length pl) vs \<and> length (video_frames vs) < 2 ^ 31
        \<and> 0 < video_avg_frame_rate (foldl video_rate_update infer_init (map fst vs)) \<longrightarrow>
        status (main skip_audio mx (hxvs_packet w h @ video_frames vs @ hxfi_packet)) = None
        \<and> new_streams (main skip_audio mx (hxvs_packet w h @ video_frames vs @ hxfi_packet))
            = [Video]
        \<and> only_video
            (frames (main skip_audio mx (hxvs_packet w h @ video_frames vs @ hxfi_packet))))"
  using main_NoVideoDetected [of skip_audio mx input]
    main_without_audio [of input fp ist skip_audio mx]
    main_video_only [of vs skip_audio mx w h]
  by blast

theorem C8_no_video_is_fatal_no_audio_is_not_witness:
  "infer_loop (fopen (hxvs_packet 1920 1080 @ video_frames [(0, access_unit), (40, access_unit)]
                        @ hxfi_packet)) infer_init
     = Inr (file_at (hxvs_packet 1920 1080 @ video_frames [(0, access_unit), (40, access_unit)]
                       @ bytes32 HXFI) (replicate 16 0),
            infer_init\<lparr>video_w := Some 1920, video_h := Some 1080, video_avg_frame_rate := 25,
              video_ts_initial := 0, video_ts_prev := 40, video_packets_count := 1\<rparr>)
   \<and> 0 < video_avg_frame_rate
           (infer_init\<lparr>video_w := Some 1920, video_h := Some 1080, video_avg_frame_rate := 25,
              video_ts_initial := 0, video_ts_prev := 40, video_packets_count := 1\<rparr>)
   \<and> audio_avg_sample_rate
           (infer_init\<lparr>video_w := Some 1920, video_h := Some 1080, video_avg_frame_rate := 25,
              video_ts_initial := 0, video_ts_prev := 40, video_packets_count := 1\<rparr>) \<le> 0
   \<and> list_all (\<lambda>(ts, pl). 5 \<le> length pl) [(0 :: u32, access_unit), (40, access_unit)]
   \<and> length (video_frames [(0, access_unit), (40, access_unit)]) < 2 ^ 31
   \<and> 0 < video_avg_frame_rate
           (foldl video_rate_update infer_init (map fst [(0 :: u32, access_unit), (40, access_unit)]))
   \<and> status (main False mux_ms
         (hxvs_packet 1920 1080 @ video_frames [(0, access_unit), (40, access_unit)]
            @ hxfi_packet)) = None
   \<and> new_streams (main False mux_ms
         (hxvs_packet 1920 1080 @ video_frames [(0, access_unit), (40, access_unit)]
            @ hxfi_packet)) = [Video]
   \<and> only_video (frames (main False mux_ms
         (hxvs_packet 1920 1080 @ video_frames [(0, access_unit), (40, access_unit)]
            @ hxfi_packet)))
   \<and> infer_loop (fopen (hxvs_packet 1920 1080 @ video_frames [(7, access_unit)] @ hxfi_packet))
         infer_init
     = Inr (file_at (hxvs_packet 1920 1080 @ video_frames [(7, access_unit)] @ bytes32 HXFI)
              (replicate 16 0),
            infer_init\<lparr>video_w := Some 1920, video_h := Some 1080,
              video_ts_initial := 7, video_ts_prev := 7\<rparr>)
   \<and> video_avg_frame_rate
         (infer_init\<lparr>video_w := Some 1920, video_h := Some 1080,
              video_ts_initial := 7, video_ts_prev := 7\<rparr>) \<le> 0
   \<and> status (main False mux_ms
         (hxvs_packet 1920 1080 @ video_frames [(7, access_unit)] @ hxfi_packet))
     = Some NoVideoDetected"
proof -
  let ?two = "hxvs_packet 1920 1080 @ video_frames [(0, access_unit), (40, access_unit)]
                @ hxfi_packet"
  let ?one = "hxvs_packet 1920 1080 @ video_frames [(7, access_unit)] @ hxfi_packet"
  let ?fp2 = "file_at (hxvs_packet 1920 1080 @ video_frames [(0, access_unit), (40, access_unit)]
                       @ bytes32 HXFI) (replicate 16 0)"
  let ?ist2 = "infer_init\<lparr>video_w := Some 1920, video_h := Some 1080,
              video_avg_frame_rate := 25,
              video_ts_initial := 0, video_ts_prev := 40, video_packets_count := 1\<rparr>"
  let ?fp1 = "file_at (hxvs_packet 1920 1080 @ video_frames [(7, access_unit)] @ bytes32 HXFI)
              (replicate 16 0)"
  let ?ist1 = "infer_init\<lparr>video_w := Some 1920, video_h := Some 1080,
              video_ts_initial := 7, video_ts_prev := 7\<rparr>"
  have two: "infer_loop (fopen ?two) infer_init = Inr (?fp2, ?ist2)"
    by (simp add: access_unit_def hxfi_packet_def eval_infer)
  have one: "infer_loop (fopen ?one) infer_init = Inr (?fp1, ?ist1)"
    by (simp add: access_unit_def hxfi_packet_def eval_infer)
  have r: "0 < video_avg_frame_rate ?ist2" "audio_avg_sample_rate ?ist2 \<le> 0"
    "video_avg_frame_rate ?ist1 \<le> 0"
    by (simp_all add: infer_init_def)
  have h: "list_all (\<lambda>(ts, pl). 5 \<le> length pl) [(0 :: u32, access_unit), (40, access_unit)]"
    "length (video_frames [(0, access_unit), (40, access_unit)]) < 2 ^ 31"
    "0 < video_avg_frame_rate
           (foldl video_rate_update infer_init (map fst [(0 :: u32, access_unit), (40, access_unit)]))"
    by (simp_all add: access_unit_def video_rate_update_def infer_init_def Let_def)
  from two one r h
    C8_no_video_is_fatal_no_audio_is_not [where skip_audio = False and mx = mux_ms
      and vs = "[(0, access_unit), (40, access_unit)]" and w = 1920 and h = 1080
      and input = ?two and fp = ?fp2 and ist = ?ist2]
    C8_no_video_is_fatal_no_audio_is_not [where skip_audio = False and mx = mux_ms
      and vs = "[]" and input = ?one and fp = ?fp1 and ist = ?ist1]
  show ?thesis
    by blast
qed

text \<open>
  C9.  A video payload is withheld, that is appended to the buffer with nothing written,
  exactly when the low five bits of its fifth byte, the byte after the four-byte start
  code, are 7 or 8.  In any state with \<open>buffer_ok\<close>, one step of the second loop on a
  video frame with a payload of at least five bytes stores the payload at the offset; then
  either the bits are 7 or 8, nothing is written and the offset grows by the length of the
  payload, or one packet is written and the offset is back to 0.  The two conditions on the
  state hold wherever the loop stands before a video frame on an input shorter than
  \<open>2\<^sup>3\<^sup>1\<close> bytes (\<open>extract_inv_init\<close>, \<open>extract_step_inv\<close>,
  \<open>extract_inv_step_conditions\<close>).
\<close>

theorem C9_withheld_iff_parameter_set:
  assumes "buffer_ok st" and "5 \<le> length pl"
    and "packet_buffer_offset st + int (length pl) < 2 ^ 31"
  shows "\<exists>st'. extract_step mx ist a (file_at pre (hxvf_packet ts pl @ rest)) st =
                 Inr (file_at (pre @ hxvf_packet ts pl) rest, st', False)
          \<and> take (length pl) (drop (nat (packet_buffer_offset st))
                                (buffer_cells (packet_buffer st'))) = map Some pl
          \<and> (written st' = written st \<longleftrightarrow> pl ! 4 AND 31 = 7 \<or> pl ! 4 AND 31 = 8)
          \<and> (if pl ! 4 AND 31 = 7 \<or> pl ! 4 AND 31 = 8 then
                written st' = written st
                \<and> packet_buffer_offset st' = packet_buffer_offset st + int (length pl)
              else
                (\<exists>p. written st' = written st @ [p]) \<and> packet_buffer_offset st' = 0)"
  using extract_step_hxvf_ok [OF assms, of mx ist a pre ts rest]
    cells_after_facts(2) [OF assms(1), of pl]
  by (auto simp: is_parameter_set_def buffer_cells_def)

theorem C9_withheld_iff_parameter_set_witness:
  "buffer_ok extract_init \<and> 5 \<le> length parameter_set
   \<and> packet_buffer_offset extract_init + int (length parameter_set) < 2 ^ 31
   \<and> (\<exists>st'. extract_step mux_ms infer_init False
                 (file_at [] (hxvf_packet 0 parameter_set @ hxfi_packet)) extract_init =
                 Inr (file_at ([] @ hxvf_packet 0 parameter_set) hxfi_packet, st', False)
          \<and> take (length parameter_set) (drop (nat (packet_buffer_offset extract_init))
                                (buffer_cells (packet_buffer st'))) = map Some parameter_set
          \<and> (written st' = written extract_init
               \<longleftrightarrow> parameter_set ! 4 AND 31 = 7 \<or> parameter_set ! 4 AND 31 = 8)
          \<and> (if parameter_set ! 4 AND 31 = 7 \<or> parameter_set ! 4 AND 31 = 8 then
                written st' = written extract_init
                \<and> packet_buffer_offset st'
                    = packet_buffer_offset extract_init + int (length parameter_set)
              else
                (\<exists>p. written st' = written extract_init @ [p]) \<and> packet_buffer_offset st' = 0))
   \<and> parameter_set ! 4 AND 31 = 7"
proof -
  have h: "buffer_ok extract_init" "5 \<le> length parameter_set"
    "packet_buffer_offset extract_init + int (length parameter_set) < 2 ^ 31"
    by (simp_all add: buffer_ok_def extract_init_def parameter_set_def)
  have "parameter_set ! 4 AND 31 = 7"
    by (simp add: parameter_set_def)
  with h C9_withheld_iff_parameter_set [OF h, of mux_ms infer_init False "[]" 0 hxfi_packet]
  show ?thesis by blast
qed

text \<open>
  C10.  For an audio frame both passes take \<^verbatim>\<open>length - 4\<close>, computed on 32-bit
  unsigned integers, for the size of the payload and never compare the declared length
  with 4.  The first pass, and the second when there is no audio stream, seek forward by
  that many bytes whatever follows; the second pass with an audio stream asks for that many
  bytes and ends with \<open>TruncatedStream\<close> when fewer follow.  The size is
  \<open>(length + 2\<^sup>3\<^sup>2 - 4) mod 2\<^sup>3\<^sup>2\<close>, at least \<open>2\<^sup>3\<^sup>2 - 4\<close> for a declared length below 4.
\<close>

theorem C10_audio_size_wraps:
  "infer_step (file_at pre (hxaf_header len ts @ rest)) st =
     Inr (\<lparr>f_bytes = pre @ hxaf_header len ts @ rest,
           f_pos = length pre + 20 + unat (len - 4), f_eof = False\<rparr>,
          audio_rate_update st len ts, False)
   \<and> extract_step mx ist False (file_at pre (hxaf_header len ts @ rest)) est =
     Inr (\<lparr>f_bytes = pre @ hxaf_header len ts @ rest,
           f_pos = length pre + 20 + unat (len - 4), f_eof = False\<rparr>, est, False)
   \<and> (length rest < unat (len - 4) \<longrightarrow>
        extract_step mx ist True (file_at pre (hxaf_header len ts @ rest)) est
          = Inl TruncatedStream)
   \<and> unat (len - 4) = (unat len + 2 ^ 32 - 4) mod 2 ^ 32
   \<and> (len < 4 \<longrightarrow> 2 ^ 32 - 4 \<le> unat (len - 4))"
proof -
  have "unat (len - 4) = (unat len + 2 ^ 32 - 4) mod 2 ^ 32"
    by (rule unat_minus4)
  moreover
  have "len < 4 \<longrightarrow> 2 ^ 32 - 4 \<le> unat (len - 4)"
    using unat_minus4_small [of len] by blast
  moreover
  have "length rest < unat (len - 4) \<longrightarrow>
        extract_step mx ist True (file_at pre (hxaf_header len ts @ rest)) est
          = Inl TruncatedStream"
    using extract_step_hxaf_header_short [of rest len] by blast
  ultimately show ?thesis
    using infer_step_hxaf_header [of pre len ts rest st]
      extract_step_hxaf_header_skip [of mx ist pre len ts rest est]
    by blast
qed

theorem C10_audio_size_wraps_witness:
  "infer_step (file_at [] (hxaf_header 2 0 @ [0xAA, 0xBB])) infer_init =
     Inr (\<lparr>f_bytes = hxaf_header 2 0 @ [0xAA, 0xBB], f_pos = 4294967314, f_eof = False\<rparr>,
          audio_rate_update infer_init 2 0, False)
   \<and> extract_step mux_ms infer_init False (file_at [] (hxaf_header 2 0 @ [0xAA, 0xBB]))
         extract_init =
     Inr (\<lparr>f_bytes = hxaf_header 2 0 @ [0xAA, 0xBB], f_pos = 4294967314, f_eof = False\<rparr>,
          extract_init, False)
   \<and> length [0xAA, 0xBB :: byte] < unat (2 - 4 :: u32)
   \<and> extract_step mux_ms infer_init True (file_at [] (hxaf_header 2 0 @ [0xAA, 0xBB]))
         extract_init = Inl TruncatedStream
   \<and> unat (2 - 4 :: u32) = 4294967294
   \<and> (2 :: u32) < 4"
  using C10_audio_size_wraps [of "[]" 2 0 "[0xAA, 0xBB]" infer_init mux_ms infer_init
          extract_init]
  by simp

end
